theory Spec2Isabelle
  imports Complex_Main "HOL-Library.Word"
begin

unbundle bit_operations_syntax

section \<open>Data model of imagefeatureextractor.cpp\<close>

type_synonym byte = "8 word"
type_synonym u_int16_t = "16 word"
type_synonym u_int32_t = "32 word"

text \<open>The reply codes of dataMessages.h that \<open>processNewImage\<close> sends.\<close>

datatype reply = OK | ERROR_GENERIC | IMAGE_NOT_DECODED | IMAGE_SIZE_TOO_BIG | IMAGE_SIZE_TOO_SMALL

text \<open>
  \<open>HitForward\<close>, with the field types the casts of \<open>writeHit\<close> give. The fields
  \<open>x\<close> and \<open>y\<close> of the source are \<open>hit_x\<close> and \<open>hit_y\<close> here.
\<close>

record HitForward =
  i_wordId :: u_int32_t
  i_imageId :: u_int32_t
  i_angle :: u_int16_t
  hit_x :: u_int16_t
  hit_y :: u_int16_t

text \<open>
  A \<open>cv::KeyPoint\<close>: the three fields the source reads (\<open>angle\<close>, \<open>pt.x\<close>, \<open>pt.y\<close>).
  A C++ \<open>float\<close> is kept as the real number it denotes; \<open>is_float32\<close> below says
  which real numbers are binary32 values, and every operation on floats rounds its result
  to binary32 (\<open>fl32\<close>).
\<close>

record KeyPoint =
  angle :: real
  pt_x :: real
  pt_y :: real

text \<open>One row of the descriptor matrix: the 128 components of a SIFT descriptor.\<close>

type_synonym descriptor = "real list"

text \<open>
  A decoded \<open>cv::Mat\<close>: its size, and its pixel buffer (\<open>None\<close> is the null
  \<open>data\<close> pointer of an empty matrix).
\<close>

record Mat =
  cols :: nat
  rows :: nat
  data :: "byte list option"

text \<open>\<open>imdecode\<close> either throws a \<open>cv::Exception\<close> or returns a matrix.\<close>

datatype imdecode_result = Decode_Exception | Decoded Mat

datatype byte_order = LittleEndian | BigEndian

text \<open>
  The collaborators the source calls and does not define: the decoder, the SIFT detector
  (row \<open>i\<close> of its descriptor matrix belongs to keypoint \<open>i\<close>, so it yields a list of
  pairs), the FLANN index (the contents of the output vectors \<open>indices\<close> and \<open>dists\<close>
  after \<open>knnSearch\<close>), and the byte order of the host.
\<close>

record env =
  imdecode :: "byte list \<Rightarrow> imdecode_result"
  sift :: "Mat \<Rightarrow> (KeyPoint \<times> descriptor) list"
  knnSearch :: "descriptor \<Rightarrow> nat \<Rightarrow> int list \<times> real list"
  host_order :: byte_order

text \<open>
  What a request can change or leave behind: the files on disk, which paths can be opened
  for writing, how many more bytes the disk accepts, and five logs: the replies sent to
  the client, the images given to the detector, the paths given to \<open>ofstream::open\<close>,
  the nearest-neighbour queries, and the \<open>newHit\<close> values handed to \<open>writeHit\<close>.
\<close>

record world =
  files :: "string \<rightharpoonup> byte list"
  creatable :: "string \<Rightarrow> bool"
  room :: nat
  replies :: "reply list"
  detected :: "Mat list"
  opened :: "string list"
  queries :: "(descriptor \<times> nat) list"
  hits :: "HitForward list"

text \<open>An \<open>ofstream\<close>: the file it is attached to, and whether \<open>good()\<close> holds.\<close>

record ofstream =
  ofs_path :: "string option"
  ofs_good :: bool

section \<open>Single-precision arithmetic\<close>

text \<open>
  IEEE 754 binary32, round to nearest, ties to even: a float is an integer of at most 24
  bits times a power of two, the exponent of the leading bit being at least -126.
  \<open>pow2 k\<close> is the power of two with the integer exponent \<open>k\<close>, \<open>rne\<close> rounds a real
  number to the nearest integer (a tie to the even one), \<open>exponent32 x\<close> is the exponent of
  the binade of \<open>x\<close> (-126 in the subnormal range) and \<open>ulp32 x\<close> the distance between
  the floats of that binade. Results beyond the largest float (infinities) and NaN are
  left out: the quotients and products below do not reach them on the inputs of the
  claims.
\<close>

definition pow2 :: "int \<Rightarrow> real" where
  "pow2 k = (if 0 \<le> k then 2 ^ nat k else 1 / 2 ^ nat (- k))"

definition rne :: "real \<Rightarrow> int" where
  "rne y = (if y - of_int \<lfloor>y\<rfloor> < 1 / 2 then \<lfloor>y\<rfloor>
            else if 1 / 2 < y - of_int \<lfloor>y\<rfloor> then \<lfloor>y\<rfloor> + 1
            else if even \<lfloor>y\<rfloor> then \<lfloor>y\<rfloor> else \<lfloor>y\<rfloor> + 1)"

definition exponent32 :: "real \<Rightarrow> int" where
  "exponent32 x = max \<lfloor>log 2 \<bar>x\<bar>\<rfloor> (- 126)"

definition ulp32 :: "real \<Rightarrow> real" where
  "ulp32 x = pow2 (exponent32 x - 23)"

definition fl32 :: "real \<Rightarrow> real" where
  "fl32 x = (if x = 0 then 0 else of_int (rne (x / ulp32 x)) * ulp32 x)"

definition is_float32 :: "real \<Rightarrow> bool" where
  "is_float32 x = (fl32 x = x \<and> \<bar>x\<bar> < pow2 128)"

text \<open>
  Division and multiplication of two floats, and the conversion of an \<open>unsigned\<close> (or
  an \<open>int\<close> that is not negative) to \<open>float\<close>: the exact result, rounded.
\<close>

definition fdiv :: "real \<Rightarrow> real \<Rightarrow> real" where
  "fdiv a b = fl32 (a / b)"

definition fmul :: "real \<Rightarrow> real \<Rightarrow> real" where
  "fmul a b = fl32 (a * b)"

definition float_of_unsigned :: "nat \<Rightarrow> real" where
  "float_of_unsigned n = fl32 (real n)"

section \<open>Conversions\<close>

text \<open>
  The conversion of a \<open>float\<close> to \<open>u_int16_t\<close> discards the fractional part
  (truncation towards zero). A value outside the range of the type is undefined in C++;
  the model keeps the low 16 bits, which is what the claims about values in range need.
\<close>

definition trunc_toward_zero :: "real \<Rightarrow> int" where
  "trunc_toward_zero v = (if 0 \<le> v then \<lfloor>v\<rfloor> else \<lceil>v\<rceil>)"

definition to_u16 :: "real \<Rightarrow> u_int16_t" where
  "to_u16 v = word_of_int (trunc_toward_zero v)"

text \<open>
  Lines 111 to 113: the three encodings of a keypoint. The operands \<open>360\<close> and
  \<open>1 << 16\<close> are of type \<open>int\<close> and \<open>i_imgWidth\<close>, \<open>i_imgHeight\<close> of type
  \<open>unsigned\<close>: each is converted to \<open>float\<close>, and the division and the multiplication
  are single-precision operations (the conversion of 360 and of 65536 is exact).
\<close>

definition angle_fixed :: "KeyPoint \<Rightarrow> u_int16_t" where
  "angle_fixed kp = to_u16 (fmul (fdiv (angle kp) 360) 65536)"

definition x_fixed :: "nat \<Rightarrow> KeyPoint \<Rightarrow> u_int16_t" where
  "x_fixed i_imgWidth kp = to_u16 (fmul (fdiv (pt_x kp) (float_of_unsigned i_imgWidth)) 65536)"

definition y_fixed :: "nat \<Rightarrow> KeyPoint \<Rightarrow> u_int16_t" where
  "y_fixed i_imgHeight kp = to_u16 (fmul (fdiv (pt_y kp) (float_of_unsigned i_imgHeight)) 65536)"

text \<open>
  The object representation of an unsigned integer of \<open>n\<close> bytes, which
  \<open>ofs.write((char *)&v, n)\<close> copies to the stream.
\<close>

definition le_bytes :: "nat \<Rightarrow> 'a::len word \<Rightarrow> byte list" where
  "le_bytes n v = map (\<lambda>k. ucast (drop_bit (8 * k) v)) [0..<n]"

definition object_bytes :: "byte_order \<Rightarrow> nat \<Rightarrow> 'a::len word \<Rightarrow> byte list" where
  "object_bytes bo n v = (case bo of LittleEndian \<Rightarrow> le_bytes n v | BigEndian \<Rightarrow> rev (le_bytes n v))"

text \<open>\<open>operator<<\<close> on an unsigned integer: its decimal digits.\<close>

definition digit_char :: "nat \<Rightarrow> char" where
  "digit_char d = char_of (48 + d)"

function show_unsigned :: "nat \<Rightarrow> string" where
  "show_unsigned n = (if n < 10 then [digit_char n] else show_unsigned (n div 10) @ [digit_char (n mod 10)])"
  by pat_completeness auto
termination
  by (relation "measure id") auto

declare show_unsigned.simps [simp del]

section \<open>The output stream\<close>

text \<open>
  \<open>ofstream::open\<close> in binary output mode creates the file, or empties it when it
  exists; when the file cannot be created the stream is no longer good.
\<close>

definition ofs_open :: "string \<Rightarrow> ofstream \<times> world \<Rightarrow> ofstream \<times> world" where
  "ofs_open name s =
     (let ofs = fst s; w = (snd s)\<lparr>opened := opened (snd s) @ [name]\<rparr> in
      if creatable w name
      then (ofs\<lparr>ofs_path := Some name\<rparr>, w\<lparr>files := (files w)(name \<mapsto> [])\<rparr>)
      else (ofs\<lparr>ofs_good := False\<rparr>, w))"

definition ofs_close :: "ofstream \<times> world \<Rightarrow> ofstream \<times> world" where
  "ofs_close s = ((fst s)\<lparr>ofs_path := None\<rparr>, snd s)"

text \<open>
  \<open>ofstream::write\<close>: nothing is written through a stream that is not good. Otherwise
  the bytes are appended to the file; when the disk has no room for all of them, the
  bytes that fit are appended and the stream is no longer good. The stream is modelled
  without its buffer. A \<open>std::ofstream\<close> keeps the bytes in a buffer and meets a full
  disk only when the buffer overflows or at \<open>close()\<close>: it can notice a failed write
  only later than this model does or, at \<open>close()\<close>, which the source does not test,
  not at all.
\<close>

definition ofs_write :: "byte list \<Rightarrow> ofstream \<times> world \<Rightarrow> ofstream \<times> world" where
  "ofs_write bs s =
     (let ofs = fst s; w = snd s in
      if \<not> ofs_good ofs then s
      else case ofs_path ofs of
        None \<Rightarrow> (ofs\<lparr>ofs_good := False\<rparr>, w)
      | Some name \<Rightarrow>
          (let old = (case files w name of None \<Rightarrow> [] | Some c \<Rightarrow> c) in
           if length bs \<le> room w
           then (ofs, w\<lparr>files := (files w)(name \<mapsto> old @ bs), room := room w - length bs\<rparr>)
           else (ofs\<lparr>ofs_good := False\<rparr>,
                 w\<lparr>files := (files w)(name \<mapsto> old @ take (room w) bs), room := 0\<rparr>)))"

section \<open>openHitFile and writeHit\<close>

definition hitFileName :: "u_int32_t \<Rightarrow> string" where
  "hitFileName imageId = ''imageHits/'' @ show_unsigned (unat imageId) @ ''.dat''"

definition openHitFile :: "ofstream \<times> world \<Rightarrow> u_int32_t \<Rightarrow> bool \<times> ofstream \<times> world" where
  "openHitFile s imageId =
     (let s1 = ofs_open (hitFileName imageId) s in
      if \<not> ofs_good (fst s1) then (False, ofs_close s1) else (True, s1))"

definition writeHit :: "byte_order \<Rightarrow> ofstream \<times> world \<Rightarrow> HitForward \<Rightarrow> bool \<times> ofstream \<times> world" where
  "writeHit bo s hit =
     (if \<not> ofs_good (fst s) then (False, s)
      else (True,
        ofs_write (object_bytes bo 2 (hit_y hit))
          (ofs_write (object_bytes bo 2 (hit_x hit))
            (ofs_write (object_bytes bo 2 (i_angle hit))
              (ofs_write (object_bytes bo 4 (i_imageId hit))
                (ofs_write (object_bytes bo 4 (i_wordId hit)) s))))))"

section \<open>processNewImage\<close>

definition sendReply :: "reply \<Rightarrow> world \<Rightarrow> world" where
  "sendReply r w = w\<lparr>replies := replies w @ [r]\<rparr>"

definition log_hit :: "HitForward \<Rightarrow> ofstream \<times> world \<Rightarrow> ofstream \<times> world" where
  "log_hit h s = (fst s, (snd s)\<lparr>hits := hits (snd s) @ [h]\<rparr>)"

definition log_query :: "descriptor \<Rightarrow> nat \<Rightarrow> ofstream \<times> world \<Rightarrow> ofstream \<times> world" where
  "log_query d k s = (fst s, (snd s)\<lparr>queries := queries (snd s) @ [(d, k)]\<rparr>)"

definition newHit :: "u_int32_t \<Rightarrow> u_int16_t \<Rightarrow> u_int16_t \<Rightarrow> u_int16_t \<Rightarrow> int \<Rightarrow> HitForward" where
  "newHit imageId a16 x16 y16 idx =
     \<lparr>i_wordId = word_of_int idx, i_imageId = imageId, i_angle = a16, hit_x = x16, hit_y = y16\<rparr>"

text \<open>
  Lines 119 to 134, the loop over \<open>indices\<close>: the first component of the result is
  \<open>False\<close> when the function has returned from inside the loop (the stream is closed
  then; the caller sends the reply).
\<close>

fun hit_loop :: "byte_order \<Rightarrow> u_int32_t \<Rightarrow> u_int16_t \<Rightarrow> u_int16_t \<Rightarrow> u_int16_t \<Rightarrow> int list \<Rightarrow>
    ofstream \<times> world \<Rightarrow> bool \<times> ofstream \<times> world" where
  "hit_loop bo imageId a16 x16 y16 [] s = (True, s)"
| "hit_loop bo imageId a16 x16 y16 (idx # rest) s =
     (let h = newHit imageId a16 x16 y16 idx;
          r = writeHit bo (log_hit h s) h
      in if \<not> fst r then (False, ofs_close (snd r))
         else hit_loop bo imageId a16 x16 y16 rest (snd r))"

text \<open>
  Lines 105 to 135, the loop over the keypoints. The copy \<open>cleanKeypoints\<close> and the
  counter \<open>i_nbKeyPoints\<close> are only printed; they and the output to \<open>cout\<close> are
  left out.
\<close>

fun keypoint_loop :: "env \<Rightarrow> u_int32_t \<Rightarrow> nat \<Rightarrow> nat \<Rightarrow> (KeyPoint \<times> descriptor) list \<Rightarrow>
    ofstream \<times> world \<Rightarrow> bool \<times> ofstream \<times> world" where
  "keypoint_loop e imageId i_imgWidth i_imgHeight [] s = (True, s)"
| "keypoint_loop e imageId i_imgWidth i_imgHeight (kd # rest) s =
     (let a16 = angle_fixed (fst kd);
          x16 = x_fixed i_imgWidth (fst kd);
          y16 = y_fixed i_imgHeight (fst kd);
          indices = fst (knnSearch e (snd kd) 4);
          r = hit_loop (host_order e) imageId a16 x16 y16 indices (log_query (snd kd) 4 s)
      in if \<not> fst r then r
         else keypoint_loop e imageId i_imgWidth i_imgHeight rest (snd r))"

text \<open>
  \<open>processNewImage\<close>: the result is the returned flag and the world after the call.
  The buffer \<open>imgData\<close> is the first \<open>i_imgSize\<close> bytes of \<open>p_imgData\<close>.
\<close>

definition processNewImage :: "env \<Rightarrow> u_int32_t \<Rightarrow> nat \<Rightarrow> byte list \<Rightarrow> world \<Rightarrow> bool \<times> world" where
  "processNewImage e imageId i_imgSize p_imgData w =
     (let imgData = take i_imgSize p_imgData in
      case imdecode e imgData of
        Decode_Exception \<Rightarrow> (False, sendReply IMAGE_NOT_DECODED w)
      | Decoded img \<Rightarrow>
          if data img = None then (False, sendReply IMAGE_NOT_DECODED w)
          else
            (let i_imgWidth = cols img; i_imgHeight = rows img in
             if i_imgWidth > 1000 \<or> i_imgHeight > 1000
             then (False, sendReply IMAGE_SIZE_TOO_BIG w)
             else if i_imgWidth < 200 \<or> i_imgHeight < 200
             then (False, sendReply IMAGE_SIZE_TOO_SMALL w)
             else
               (let keypoints = sift e img;
                    w1 = w\<lparr>detected := detected w @ [img]\<rparr>;
                    opn = openHitFile (\<lparr>ofs_path = None, ofs_good = True\<rparr>, w1) imageId
                in if \<not> fst opn then (False, sendReply ERROR_GENERIC (snd (snd opn)))
                   else
                     (let r = keypoint_loop e imageId i_imgWidth i_imgHeight keypoints (snd opn)
                      in if \<not> fst r then (False, sendReply ERROR_GENERIC (snd (snd r)))
                         else (True, sendReply OK (snd (ofs_close (snd r))))))))"

section \<open>readVisualWords and init\<close>

text \<open>
  An \<open>ifstream\<close>: the bytes not yet read and the state flags \<open>eofbit\<close> and
  \<open>failbit\<close>; \<open>good()\<close> holds when neither is set.
\<close>

record ifstream =
  ifs_rest :: "byte list"
  ifs_eof :: bool
  ifs_fail :: bool

definition ifs_good :: "ifstream \<Rightarrow> bool" where
  "ifs_good s = (\<not> ifs_eof s \<and> \<not> ifs_fail s)"

text \<open>
  \<open>read(p, n)\<close>: through a stream that is not good nothing is read and \<open>failbit\<close> is
  set. When fewer than \<open>n\<close> bytes are left they are all read and both flags are set.
  The result is the bytes stored at \<open>p\<close>.
\<close>

definition ifs_read :: "nat \<Rightarrow> ifstream \<Rightarrow> byte list \<times> ifstream" where
  "ifs_read n s =
     (if \<not> ifs_good s then ([], s\<lparr>ifs_fail := True\<rparr>)
      else if n \<le> length (ifs_rest s) then (take n (ifs_rest s), s\<lparr>ifs_rest := drop n (ifs_rest s)\<rparr>)
      else (ifs_rest s, s\<lparr>ifs_rest := [], ifs_eof := True, ifs_fail := True\<rparr>))"

text \<open>
  \<open>ignore(numeric_limits<streamsize>::max(), '\n')\<close>: bytes are discarded up to and
  including the first newline (byte 10); reaching the end of the file sets \<open>eofbit\<close>.
\<close>

definition ifs_ignore_line :: "ifstream \<Rightarrow> ifstream" where
  "ifs_ignore_line s =
     (if \<not> ifs_good s then s\<lparr>ifs_fail := True\<rparr>
      else case dropWhile (\<lambda>b. b \<noteq> 10) (ifs_rest s) of
        [] \<Rightarrow> s\<lparr>ifs_rest := [], ifs_eof := True\<rparr>
      | nl # after \<Rightarrow> s\<lparr>ifs_rest := after\<rparr>)"

text \<open>
  A \<open>float\<close> is kept as its object representation, the four bytes \<open>read\<close> stores.
  A row of the matrix \<open>words\<close> is a list of 128 of them.
\<close>

type_synonym float_bytes = "byte list"
type_synonym row = "float_bytes list"

text \<open>
  Lines 227 to 231, the loop over the columns: every \<open>read\<close> overwrites the leading
  bytes of the variable \<open>c\<close>, and \<open>c\<close> is stored in the line whether or not the read
  succeeded. The result is the line, the last value of \<open>c\<close> and the stream.
\<close>

fun read_columns :: "nat \<Rightarrow> float_bytes \<Rightarrow> ifstream \<Rightarrow> row \<times> float_bytes \<times> ifstream" where
  "read_columns 0 c s = ([], c, s)"
| "read_columns (Suc k) c s =
     (let r = ifs_read 4 s;
          c1 = fst r @ drop (length (fst r)) c;
          l = read_columns k c1 (snd r)
      in (c1 # fst l, snd l))"

lemma read_columns_good:
  "ifs_good (snd (snd (read_columns k c s))) \<Longrightarrow>
     4 * k \<le> length (ifs_rest s) \<and> ifs_rest (snd (snd (read_columns k c s))) = drop (4 * k) (ifs_rest s)"
proof (induction k arbitrary: c s)
  case 0
  then show ?case by simp
next
  case (Suc k)
  let ?r = "ifs_read 4 s"
  let ?c1 = "fst ?r @ drop (length (fst ?r)) c"
  have g: "ifs_good (snd (snd (read_columns k ?c1 (snd ?r))))"
    using Suc.prems by (simp add: Let_def)
  from Suc.IH [OF this]
  have ih: "4 * k \<le> length (ifs_rest (snd ?r))"
    "ifs_rest (snd (snd (read_columns k ?c1 (snd ?r)))) = drop (4 * k) (ifs_rest (snd ?r))"
    by simp_all
  have mono: "\<not> ifs_good t \<Longrightarrow> \<not> ifs_good (snd (snd (read_columns j d t)))" for j d t
    by (induction j arbitrary: d t) (simp_all add: Let_def ifs_read_def ifs_good_def)
  have "ifs_good (snd ?r)"
    using g mono by blast
  then have ok: "ifs_good s \<and> 4 \<le> length (ifs_rest s)"
    by (auto simp: ifs_read_def ifs_good_def split: if_splits)
  then have "snd ?r = s\<lparr>ifs_rest := drop 4 (ifs_rest s)\<rparr>"
    by (simp add: ifs_read_def)
  with ih ok show ?case
    by (auto simp: Let_def add.commute)
qed

text \<open>Lines 224 to 236, the loop over the records.\<close>

function read_loop :: "float_bytes \<Rightarrow> ifstream \<Rightarrow> row list \<Rightarrow> float_bytes \<times> ifstream \<times> row list" where
  "read_loop c s words =
     (if ifs_good s then
        (let l = read_columns 128 c s in
         if \<not> ifs_good (snd (snd l)) then (fst (snd l), snd (snd l), words)
         else read_loop (fst (snd l)) (ifs_ignore_line (snd (snd l))) (words @ [fst l]))
      else (c, s, words))"
  by pat_completeness auto
termination read_loop
proof (relation "measure (\<lambda>(c, s, words). length (ifs_rest s))")
  show "wf (measure (\<lambda>(c, s, words). length (ifs_rest s)))" by simp
next
  fix c :: float_bytes and s :: ifstream and words :: "row list" and l
  assume "ifs_good s" and l: "l = read_columns 128 c s" and g: "\<not> \<not> ifs_good (snd (snd l))"
  from g l read_columns_good [of 128 c s]
  have r: "512 \<le> length (ifs_rest s)" "ifs_rest (snd (snd l)) = drop 512 (ifs_rest s)"
    by simp_all
  have "length (ifs_rest (ifs_ignore_line t)) \<le> length (ifs_rest t)" for t
    using length_dropWhile_le [of "\<lambda>b. b \<noteq> 10" "ifs_rest t"]
    by (auto simp: ifs_ignore_line_def split: list.splits)
  from this [of "snd (snd l)"] r
  show "((fst (snd l), ifs_ignore_line (snd (snd l)), words @ [fst l]), (c, s, words))
      \<in> measure (\<lambda>(c, s, words). length (ifs_rest s))"
    by simp
qed

declare read_loop.simps [simp del]

text \<open>
  \<open>readVisualWords\<close>: \<open>disk\<close> gives the contents of the files that can be opened,
  \<open>c0\<close> is the indeterminate initial value of the variable \<open>c\<close>, and \<open>words\<close> is the
  matrix before the call. The result is the returned flag and the matrix after the call.
\<close>

definition readVisualWords :: "(string \<rightharpoonup> byte list) \<Rightarrow> string \<Rightarrow> float_bytes \<Rightarrow> row list \<Rightarrow> bool \<times> row list" where
  "readVisualWords disk fileName c0 words =
     (case disk fileName of
        None \<Rightarrow> (False, words)
      | Some content \<Rightarrow>
          (True, snd (snd (read_loop c0 \<lparr>ifs_rest = content, ifs_eof = False, ifs_fail = False\<rparr> words))))"

text \<open>
  \<open>init\<close> ends in one of three ways: \<open>exit(1)\<close>, a failed \<open>assert\<close> (the source
  does not define \<open>NDEBUG\<close>, so the assertion aborts the process), or the index loaded
  from \<open>indexPath\<close> over the matrix \<open>words\<close>. The constructor of \<open>flann::Index\<close> is
  the parameter \<open>load_index\<close>.
\<close>

datatype 'i init_result = Exit nat | Assertion_Failed | Initialized "row list" 'i

definition init :: "(string \<rightharpoonup> byte list) \<Rightarrow> (row list \<Rightarrow> string \<Rightarrow> 'i) \<Rightarrow> string \<Rightarrow> string \<Rightarrow>
    float_bytes \<Rightarrow> 'i init_result" where
  "init disk load_index visualWordsPath indexPath c0 =
     (let r = readVisualWords disk visualWordsPath c0 [] in
      if \<not> fst r then Exit 1
      else if length (snd r) \<noteq> 1000000 then Assertion_Failed
      else Initialized (snd r) (load_index (snd r) indexPath))"

section \<open>The layout of the hit file, as the specification words it\<close>

text \<open>
  A serialized hit: five fields in the order word id (4 bytes), image id (4 bytes), angle
  (2 bytes), x (2 bytes), y (2 bytes), with nothing between them.
\<close>

definition hit_record :: "byte_order \<Rightarrow> HitForward \<Rightarrow> byte list" where
  "hit_record bo hit =
     object_bytes bo 4 (i_wordId hit) @ object_bytes bo 4 (i_imageId hit) @
     object_bytes bo 2 (i_angle hit) @ object_bytes bo 2 (hit_x hit) @ object_bytes bo 2 (hit_y hit)"

text \<open>
  The hits of one keypoint: one per entry of \<open>indices\<close>, in the order of the index, all
  with the encodings of the keypoint.
\<close>

definition keypoint_hits :: "env \<Rightarrow> u_int32_t \<Rightarrow> nat \<Rightarrow> nat \<Rightarrow> KeyPoint \<times> descriptor \<Rightarrow> HitForward list" where
  "keypoint_hits e imageId i_imgWidth i_imgHeight kd =
     map (newHit imageId (angle_fixed (fst kd)) (x_fixed i_imgWidth (fst kd)) (y_fixed i_imgHeight (fst kd)))
       (fst (knnSearch e (snd kd) 4))"

text \<open>
  The vocabulary file as the specification describes it: records of 128 floats of 4 bytes,
  each followed by the bytes up to and including the next newline; a final record of fewer
  than 512 bytes ends the file and gives no row.
\<close>

definition skip_line :: "byte list \<Rightarrow> byte list" where
  "skip_line bs = drop 1 (dropWhile (\<lambda>b. b \<noteq> 10) bs)"

primrec floats_of :: "nat \<Rightarrow> byte list \<Rightarrow> float_bytes list" where
  "floats_of 0 bs = []"
| "floats_of (Suc k) bs = take 4 bs # floats_of k (drop 4 bs)"

function parse_records :: "byte list \<Rightarrow> row list" where
  "parse_records bs =
     (if length bs < 512 then []
      else floats_of 128 bs # parse_records (skip_line (drop 512 bs)))"
  by pat_completeness auto
termination parse_records
proof (relation "measure length")
  show "wf (measure length)" by simp
next
  fix bs :: "byte list"
  assume "\<not> length bs < 512"
  moreover have "length (skip_line (drop 512 bs)) \<le> length (drop 512 bs)"
    using length_dropWhile_le [of "\<lambda>b. b \<noteq> 10" "drop 512 bs"] by (simp add: skip_line_def)
  ultimately show "(skip_line (drop 512 bs), bs) \<in> measure length"
    by simp
qed

declare parse_records.simps [simp del]

section \<open>Sample inputs\<close>

definition sample_keypoint :: KeyPoint where
  "sample_keypoint = \<lparr>angle = 90, pt_x = 100, pt_y = 50\<rparr>"

definition sample_env :: "imdecode_result \<Rightarrow> env" where
  "sample_env dec =
     \<lparr>imdecode = (\<lambda>buf. dec),
      sift = (\<lambda>img. [(sample_keypoint, [])]),
      knnSearch = (\<lambda>d k. ([3, 1, 4, 5], [0, 1, 2, 3])),
      host_order = LittleEndian\<rparr>"

definition sample_world :: "nat \<Rightarrow> world" where
  "sample_world r =
     \<lparr>files = Map.empty, creatable = (\<lambda>name. True), room = r, replies = [],
      detected = [], opened = [], queries = [], hits = []\<rparr>"

definition sample_image :: "nat \<Rightarrow> nat \<Rightarrow> Mat" where
  "sample_image w h = \<lparr>cols = w, rows = h, data = Some []\<rparr>"

definition sample_record :: "byte list" where
  "sample_record = replicate 512 1 @ [13, 10]"

definition sample_row :: row where
  "sample_row = replicate 128 (replicate 4 1)"

definition vocabulary_file :: "nat \<Rightarrow> byte list" where
  "vocabulary_file n = concat (replicate n sample_record)"

section \<open>The output stream and the two loops\<close>

lemma length_le_bytes: "length (le_bytes n v) = n"
  by (simp add: le_bytes_def)

lemma length_object_bytes: "length (object_bytes bo n v) = n"
  by (cases bo) (simp_all add: object_bytes_def length_le_bytes)

lemma ofs_write_fits:
  assumes "ofs_good ofs" "ofs_path ofs = Some name" "files w name = Some old" "length bs \<le> room w"
  shows "ofs_write bs (ofs, w) = (ofs, w\<lparr>files := (files w)(name \<mapsto> old @ bs), room := room w - length bs\<rparr>)"
  using assms by (simp add: ofs_write_def)

lemma ofs_write_bad: "\<not> ofs_good ofs \<Longrightarrow> ofs_write bs (ofs, w) = (ofs, w)"
  by (simp add: ofs_write_def)

lemma length_hit_record: "length (hit_record bo hit) = 14"
  by (simp add: hit_record_def length_object_bytes)

lemma writeHit_fits:
  assumes "ofs_good ofs" "ofs_path ofs = Some name" "files w name = Some old" "14 \<le> room w"
  shows "writeHit bo (ofs, w) hit =
    (True, ofs, w\<lparr>files := (files w)(name \<mapsto> old @ hit_record bo hit), room := room w - 14\<rparr>)"
  using assms
  by (simp add: writeHit_def ofs_write_fits length_object_bytes hit_record_def)

lemma ofs_write_logs:
  "replies (snd (ofs_write bs s)) = replies (snd s)"
  "detected (snd (ofs_write bs s)) = detected (snd s)"
  "opened (snd (ofs_write bs s)) = opened (snd s)"
  "queries (snd (ofs_write bs s)) = queries (snd s)"
  "hits (snd (ofs_write bs s)) = hits (snd s)"
  by (simp_all add: ofs_write_def Let_def split: option.splits)

lemma writeHit_logs:
  "replies (snd (snd (writeHit bo s h))) = replies (snd s)"
  "detected (snd (snd (writeHit bo s h))) = detected (snd s)"
  "opened (snd (snd (writeHit bo s h))) = opened (snd s)"
  "queries (snd (snd (writeHit bo s h))) = queries (snd s)"
  "hits (snd (snd (writeHit bo s h))) = hits (snd s)"
  by (simp_all add: writeHit_def ofs_write_logs)

lemma hit_loop_logs:
  "replies (snd (snd (hit_loop bo i a b c idxs s))) = replies (snd s) \<and>
   detected (snd (snd (hit_loop bo i a b c idxs s))) = detected (snd s) \<and>
   opened (snd (snd (hit_loop bo i a b c idxs s))) = opened (snd s) \<and>
   queries (snd (snd (hit_loop bo i a b c idxs s))) = queries (snd s)"
  by (induction idxs arbitrary: s)
     (simp_all add: Let_def writeHit_logs log_hit_def ofs_close_def)

lemma keypoint_loop_logs:
  "replies (snd (snd (keypoint_loop e i W H kps s))) = replies (snd s) \<and>
   detected (snd (snd (keypoint_loop e i W H kps s))) = detected (snd s) \<and>
   opened (snd (snd (keypoint_loop e i W H kps s))) = opened (snd s)"
  by (induction kps arbitrary: s)
     (simp_all add: Let_def hit_loop_logs log_query_def)

lemma hit_loop_hits:
  "fst (hit_loop bo i a b c idxs s) \<Longrightarrow>
   hits (snd (snd (hit_loop bo i a b c idxs s))) = hits (snd s) @ map (newHit i a b c) idxs"
  by (induction idxs arbitrary: s)
     (simp_all add: Let_def writeHit_logs log_hit_def split: if_splits)

lemma keypoint_loop_hits:
  "fst (keypoint_loop e i W H kps s) \<Longrightarrow>
   hits (snd (snd (keypoint_loop e i W H kps s))) = hits (snd s) @ concat (map (keypoint_hits e i W H) kps) \<and>
   queries (snd (snd (keypoint_loop e i W H kps s))) = queries (snd s) @ map (\<lambda>kd. (snd kd, 4)) kps"
  by (induction kps arbitrary: s)
     (simp_all add: Let_def hit_loop_hits hit_loop_logs log_query_def keypoint_hits_def split: if_splits)

lemma openHitFile_logs:
  "replies (snd (snd (openHitFile s i))) = replies (snd s)"
  "detected (snd (snd (openHitFile s i))) = detected (snd s)"
  "queries (snd (snd (openHitFile s i))) = queries (snd s)"
  "hits (snd (snd (openHitFile s i))) = hits (snd s)"
  "opened (snd (snd (openHitFile s i))) = opened (snd s) @ [hitFileName i]"
  by (simp_all add: openHitFile_def ofs_open_def ofs_close_def Let_def)

lemma processNewImage_True:
  assumes "processNewImage e imageId n buf w = (True, w')"
  obtains img where "imdecode e (take n buf) = Decoded img" "data img \<noteq> None"
    "200 \<le> cols img" "cols img \<le> 1000" "200 \<le> rows img" "rows img \<le> 1000"
    "fst (openHitFile (\<lparr>ofs_path = None, ofs_good = True\<rparr>, w\<lparr>detected := detected w @ [img]\<rparr>) imageId)"
    "fst (keypoint_loop e imageId (cols img) (rows img) (sift e img)
       (snd (openHitFile (\<lparr>ofs_path = None, ofs_good = True\<rparr>, w\<lparr>detected := detected w @ [img]\<rparr>) imageId)))"
    "w' = sendReply OK (snd (ofs_close (snd (keypoint_loop e imageId (cols img) (rows img) (sift e img)
       (snd (openHitFile (\<lparr>ofs_path = None, ofs_good = True\<rparr>, w\<lparr>detected := detected w @ [img]\<rparr>) imageId))))))"
  using assms
  by (auto simp: processNewImage_def Let_def split: imdecode_result.splits if_splits)

lemma hit_loop_fits:
  assumes "ofs_good ofs" "ofs_path ofs = Some name" "files w name = Some old"
    "14 * length idxs \<le> room w"
  shows "hit_loop bo i a b c idxs (ofs, w) =
    (True, ofs, w\<lparr>files := (files w)(name \<mapsto> old @ concat (map (\<lambda>idx. hit_record bo (newHit i a b c idx)) idxs)),
                   room := room w - 14 * length idxs,
                   hits := hits w @ map (newHit i a b c) idxs\<rparr>)"
  using assms
proof (induction idxs arbitrary: w old)
  case Nil
  then have "(files w)(name \<mapsto> old) = files w"
    by (simp add: map_upd_triv)
  then show ?case by simp
next
  case (Cons idx rest)
  let ?h = "newHit i a b c idx"
  let ?w1 = "w\<lparr>hits := hits w @ [?h]\<rparr>"
  let ?w2 = "?w1\<lparr>files := (files ?w1)(name \<mapsto> old @ hit_record bo ?h), room := room ?w1 - 14\<rparr>"
  have wr: "writeHit bo (ofs, ?w1) ?h = (True, ofs, ?w2)"
    using Cons.prems by (intro writeHit_fits) simp_all
  have step: "hit_loop bo i a b c (idx # rest) (ofs, w) = hit_loop bo i a b c rest (ofs, ?w2)"
    using wr by (simp add: Let_def log_hit_def)
  have rest: "hit_loop bo i a b c rest (ofs, ?w2) =
    (True, ofs, ?w2\<lparr>files := (files ?w2)(name \<mapsto> (old @ hit_record bo ?h) @ concat (map (\<lambda>idx. hit_record bo (newHit i a b c idx)) rest)),
                   room := room ?w2 - 14 * length rest,
                   hits := hits ?w2 @ map (newHit i a b c) rest\<rparr>)"
    using Cons.prems by (intro Cons.IH) simp_all
  show ?case
    unfolding step rest
    by (intro arg_cong [where f = "Pair True"] arg_cong [where f = "Pair ofs"] world.equality) (simp_all add: fun_eq_iff)
qed

lemma keypoint_loop_fits:
  assumes "ofs_good ofs" "ofs_path ofs = Some name" "files w name = Some old"
    "14 * length (concat (map (keypoint_hits e i W H) kps)) \<le> room w"
  shows "\<exists>w'. keypoint_loop e i W H kps (ofs, w) = (True, ofs, w') \<and>
    files w' name = Some (old @ concat (map (hit_record (host_order e)) (concat (map (keypoint_hits e i W H) kps)))) \<and>
    room w' = room w - 14 * length (concat (map (keypoint_hits e i W H) kps))"
  using assms
proof (induction kps arbitrary: w old)
  case Nil
  then show ?case by simp
next
  case (Cons kd rest)
  let ?idxs = "fst (knnSearch e (snd kd) 4)"
  let ?g = "keypoint_hits e i W H kd"
  let ?w1 = "w\<lparr>queries := queries w @ [(snd kd, 4)]\<rparr>"
  have len: "length ?g = length ?idxs"
    by (simp add: keypoint_hits_def)
  obtain w2 where h: "hit_loop (host_order e) i (angle_fixed (fst kd)) (x_fixed W (fst kd)) (y_fixed H (fst kd)) ?idxs (ofs, ?w1) = (True, ofs, w2)"
    and f2: "files w2 name = Some (old @ concat (map (hit_record (host_order e)) ?g))"
    and r2: "room w2 = room w - 14 * length ?g"
    using Cons.prems len
    by (simp add: hit_loop_fits [where name = name and old = old] keypoint_hits_def comp_def)
  have "14 * length (concat (map (keypoint_hits e i W H) rest)) \<le> room w2"
    using Cons.prems(4) r2 by simp
  from Cons.IH [OF Cons.prems(1,2) f2 this]
  obtain w' where k: "keypoint_loop e i W H rest (ofs, w2) = (True, ofs, w')"
    and f': "files w' name = Some ((old @ concat (map (hit_record (host_order e)) ?g)) @
        concat (map (hit_record (host_order e)) (concat (map (keypoint_hits e i W H) rest))))"
    and r': "room w' = room w2 - 14 * length (concat (map (keypoint_hits e i W H) rest))"
    by blast
  have "keypoint_loop e i W H (kd # rest) (ofs, w) = (True, ofs, w')"
    using h k by (simp add: Let_def log_query_def)
  then show ?case
    using f' r' r2 by simp
qed

lemma hit_loop_hits_any:
  "\<exists>m. hits (snd (snd (hit_loop bo i a b c idxs s))) = hits (snd s) @ map (newHit i a b c) (take m idxs)"
proof (induction idxs arbitrary: s)
  case Nil
  then show ?case by simp
next
  case (Cons idx rest)
  let ?h = "newHit i a b c idx"
  let ?r = "writeHit bo (log_hit ?h s) ?h"
  show ?case
  proof (cases "fst ?r")
    case False
    then have "hits (snd (snd (hit_loop bo i a b c (idx # rest) s))) = hits (snd s) @ map (newHit i a b c) (take 1 (idx # rest))"
      by (simp add: Let_def ofs_close_def writeHit_logs log_hit_def)
    then show ?thesis by blast
  next
    case True
    obtain m where "hits (snd (snd (hit_loop bo i a b c rest (snd ?r)))) = hits (snd (snd ?r)) @ map (newHit i a b c) (take m rest)"
      using Cons.IH by blast
    with True have "hits (snd (snd (hit_loop bo i a b c (idx # rest) s))) = hits (snd s) @ map (newHit i a b c) (take (Suc m) (idx # rest))"
      by (simp add: Let_def writeHit_logs log_hit_def)
    then show ?thesis by blast
  qed
qed

lemma keypoint_loop_hits_any:
  "\<exists>gs. hits (snd (snd (keypoint_loop e i W H kps s))) = hits (snd s) @ concat gs \<and>
     length gs \<le> length kps \<and>
     (\<forall>j<length gs. \<exists>m. gs ! j = take m (keypoint_hits e i W H (kps ! j)))"
proof (induction kps arbitrary: s)
  case Nil
  have "hits (snd (snd (keypoint_loop e i W H [] s))) = hits (snd s) @ concat []" by simp
  then show ?case by (intro exI [of _ "[]"]) simp
next
  case (Cons kd rest)
  let ?r = "hit_loop (host_order e) i (angle_fixed (fst kd)) (x_fixed W (fst kd)) (y_fixed H (fst kd))
      (fst (knnSearch e (snd kd) 4)) (log_query (snd kd) 4 s)"
  have "\<exists>m. hits (snd (snd ?r)) = hits (snd (log_query (snd kd) 4 s)) @
      map (newHit i (angle_fixed (fst kd)) (x_fixed W (fst kd)) (y_fixed H (fst kd)))
        (take m (fst (knnSearch e (snd kd) 4)))"
    by (rule hit_loop_hits_any)
  then obtain m where m: "hits (snd (snd ?r)) = hits (snd s) @ take m (keypoint_hits e i W H kd)"
    by (auto simp: keypoint_hits_def log_query_def take_map)
  show ?case
  proof (cases "fst ?r")
    case False
    then have "hits (snd (snd (keypoint_loop e i W H (kd # rest) s))) = hits (snd s) @ concat [take m (keypoint_hits e i W H kd)]"
      using m by (simp add: Let_def)
    then show ?thesis
      by (intro exI [of _ "[take m (keypoint_hits e i W H kd)]"]) auto
  next
    case True
    obtain gs where gs: "hits (snd (snd (keypoint_loop e i W H rest (snd ?r)))) = hits (snd (snd ?r)) @ concat gs"
      "length gs \<le> length rest" "\<forall>j<length gs. \<exists>m. gs ! j = take m (keypoint_hits e i W H (rest ! j))"
      using Cons.IH by blast
    have "hits (snd (snd (keypoint_loop e i W H (kd # rest) s))) = hits (snd s) @ concat (take m (keypoint_hits e i W H kd) # gs)"
      using True m gs(1) by (simp add: Let_def)
    moreover have "\<forall>j<length (take m (keypoint_hits e i W H kd) # gs).
        \<exists>m'. (take m (keypoint_hits e i W H kd) # gs) ! j = take m' (keypoint_hits e i W H ((kd # rest) ! j))"
      using gs(3) by (auto simp: nth_Cons split: nat.splits)
    ultimately show ?thesis
      using gs(2) by (intro exI [of _ "take m (keypoint_hits e i W H kd) # gs"]) simp
  qed
qed

lemma keypoint_hits_fields:
  "h \<in> set (keypoint_hits e i W H kd) \<Longrightarrow>
     i_imageId h = i \<and> i_angle h = angle_fixed (fst kd) \<and> hit_x h = x_fixed W (fst kd) \<and> hit_y h = y_fixed H (fst kd)"
  by (auto simp: keypoint_hits_def newHit_def)

section \<open>The vocabulary loader\<close>

lemma read_columns_bad:
  "\<not> ifs_good s \<Longrightarrow> \<not> ifs_good (snd (snd (read_columns k c s)))"
  by (induction k arbitrary: c s) (simp_all add: Let_def ifs_read_def ifs_good_def)

lemma read_columns_c_length:
  "length c = 4 \<Longrightarrow> length (fst (snd (read_columns k c s))) = 4"
  by (induction k arbitrary: c s) (auto simp: Let_def ifs_read_def)

lemma read_columns_full:
  "ifs_good s \<Longrightarrow> 4 * k \<le> length (ifs_rest s) \<Longrightarrow> length c = 4 \<Longrightarrow>
     fst (read_columns k c s) = floats_of k (ifs_rest s) \<and>
     snd (snd (read_columns k c s)) = s\<lparr>ifs_rest := drop (4 * k) (ifs_rest s)\<rparr>"
proof (induction k arbitrary: c s)
  case 0
  then show ?case by simp
next
  case (Suc k)
  have r: "ifs_read 4 s = (take 4 (ifs_rest s), s\<lparr>ifs_rest := drop 4 (ifs_rest s)\<rparr>)"
    using Suc.prems by (simp add: ifs_read_def)
  have g: "ifs_good (s\<lparr>ifs_rest := drop 4 (ifs_rest s)\<rparr>)"
    using Suc.prems by (simp add: ifs_good_def)
  have "4 * k \<le> length (ifs_rest (s\<lparr>ifs_rest := drop 4 (ifs_rest s)\<rparr>))"
    using Suc.prems by simp
  from Suc.IH [OF g this, of "take 4 (ifs_rest s)"] r Suc.prems show ?case
    by (simp add: Let_def add.commute)
qed

lemma ifs_ignore_line_good:
  "ifs_good s \<Longrightarrow>
     ifs_rest (ifs_ignore_line s) = skip_line (ifs_rest s) \<and>
     (ifs_good (ifs_ignore_line s) \<or> ifs_rest (ifs_ignore_line s) = [])"
  by (cases "dropWhile (\<lambda>b. b \<noteq> 10) (ifs_rest s)")
     (simp_all add: ifs_ignore_line_def skip_line_def ifs_good_def del: dropWhile_eq_Nil_conv)

lemma read_loop_parse:
  "ifs_good s \<or> ifs_rest s = [] \<Longrightarrow> length c = 4 \<Longrightarrow>
     snd (snd (read_loop c s ws)) = ws @ parse_records (ifs_rest s)"
proof (induction c s ws rule: read_loop.induct)
  case (1 c s ws)
  show ?case
  proof (cases "ifs_good s")
    case False
    with "1.prems" have "ifs_rest s = []" by simp_all
    with False show ?thesis
      by (simp add: read_loop.simps [of c s ws] parse_records.simps [of "[]"])
  next
    case True
    let ?l = "read_columns 128 c s"
    show ?thesis
    proof (cases "length (ifs_rest s) < 512")
      case short: True
      then have "\<not> ifs_good (snd (snd ?l))"
        using read_columns_good [of 128 c s] by auto
      with True short show ?thesis
        by (simp add: read_loop.simps [of c s ws] parse_records.simps [of "ifs_rest s"] Let_def)
    next
      case long: False
      then have full: "fst ?l = floats_of 128 (ifs_rest s)"
        "snd (snd ?l) = s\<lparr>ifs_rest := drop 512 (ifs_rest s)\<rparr>"
        using read_columns_full [of s 128 c] True "1.prems"(2) by simp_all
      have g1: "ifs_good (snd (snd ?l))"
        using True full(2) by (simp add: ifs_good_def)
      let ?s2 = "ifs_ignore_line (snd (snd ?l))"
      have s2: "ifs_rest ?s2 = skip_line (drop 512 (ifs_rest s))" "ifs_good ?s2 \<or> ifs_rest ?s2 = []"
        using ifs_ignore_line_good [OF g1] full(2) by auto
      have "snd (snd (read_loop (fst (snd ?l)) ?s2 (ws @ [fst ?l]))) = (ws @ [fst ?l]) @ parse_records (ifs_rest ?s2)"
        using True g1 s2(2) "1.prems"(2) by (intro "1.IH") (simp_all add: read_columns_c_length)
      with True g1 long full(1) s2(1) show ?thesis
        by (simp add: read_loop.simps [of c s ws] parse_records.simps [of "ifs_rest s"] Let_def)
    qed
  qed
qed

lemma floats_of_shape:
  "4 * k \<le> length bs \<Longrightarrow>
     length (floats_of k bs) = k \<and> (\<forall>f\<in>set (floats_of k bs). length f = 4) \<and> concat (floats_of k bs) = take (4 * k) bs"
proof (induction k arbitrary: bs)
  case 0
  then show ?case by simp
next
  case (Suc k)
  then have "4 * k \<le> length (drop 4 bs)" by simp
  from Suc.IH [OF this] Suc.prems show ?case
    by (simp add: take_add [symmetric] add.commute min_def)
qed

lemma parse_records_shape:
  "r \<in> set (parse_records bs) \<Longrightarrow> length r = 128 \<and> (\<forall>f\<in>set r. length f = 4)"
proof (induction bs rule: parse_records.induct)
  case (1 bs)
  show ?case
  proof (cases "length bs < 512")
    case True
    with "1.prems" show ?thesis by (simp add: parse_records.simps [of bs])
  next
    case False
    with "1.prems" have "r = floats_of 128 bs \<or> r \<in> set (parse_records (skip_line (drop 512 bs)))"
      by (simp add: parse_records.simps [of bs])
    then show ?thesis
    proof
      assume "r = floats_of 128 bs"
      with False floats_of_shape [of 128 bs] show ?thesis by simp
    next
      assume "r \<in> set (parse_records (skip_line (drop 512 bs)))"
      with False "1.IH" show ?thesis by simp
    qed
  qed
qed

section \<open>Rounding to binary32\<close>

lemma pow2_powr: "pow2 k = 2 powr of_int k"
  by (simp add: pow2_def powr_int)

lemma pow2_pos [simp]: "0 < pow2 k"
  by (simp add: pow2_powr)

lemma pow2_add: "pow2 (a + b) = pow2 a * pow2 b"
  by (simp add: pow2_powr powr_add)

lemma pow2_diff: "pow2 (a - b) = pow2 a / pow2 b"
  by (simp add: pow2_powr powr_diff)

lemma pow2_le_iff [simp]: "pow2 a \<le> pow2 b \<longleftrightarrow> a \<le> b"
  by (simp add: pow2_powr)

lemma pow2_less_iff [simp]: "pow2 a < pow2 b \<longleftrightarrow> a < b"
  by (simp add: pow2_powr)

lemma pow2_int: "0 \<le> k \<Longrightarrow> pow2 k = of_int (2 ^ nat k)"
  by (simp add: pow2_def)

lemma exponent32_ge: "- 126 \<le> exponent32 x"
  by (simp add: exponent32_def)

lemma exponent32_upper: "x \<noteq> 0 \<Longrightarrow> \<bar>x\<bar> < pow2 (exponent32 x + 1)"
proof -
  assume x: "x \<noteq> 0"
  define k where "k = \<lfloor>log 2 \<bar>x\<bar>\<rfloor>"
  have "2 powr of_int k \<le> \<bar>x\<bar> \<and> \<bar>x\<bar> < 2 powr of_int (k + 1)"
    using floor_log_eq_powr_iff [of "\<bar>x\<bar>" 2 k] x by (simp add: k_def)
  then have "\<bar>x\<bar> < pow2 (k + 1)" by (simp add: pow2_powr)
  also have "pow2 (k + 1) \<le> pow2 (exponent32 x + 1)"
    by (simp add: exponent32_def k_def)
  finally show ?thesis .
qed

lemma exponent32_lower: "x \<noteq> 0 \<Longrightarrow> - 126 < exponent32 x \<Longrightarrow> pow2 (exponent32 x) \<le> \<bar>x\<bar>"
proof -
  assume x: "x \<noteq> 0" and n: "- 126 < exponent32 x"
  define k where "k = \<lfloor>log 2 \<bar>x\<bar>\<rfloor>"
  have "2 powr of_int k \<le> \<bar>x\<bar> \<and> \<bar>x\<bar> < 2 powr of_int (k + 1)"
    using floor_log_eq_powr_iff [of "\<bar>x\<bar>" 2 k] x by (simp add: k_def)
  moreover have "exponent32 x = k"
    using n by (simp add: exponent32_def k_def max_def split: if_splits)
  ultimately show ?thesis by (simp add: pow2_powr)
qed

lemma exponent32_le: "x \<noteq> 0 \<Longrightarrow> \<bar>x\<bar> < pow2 (k + 1) \<Longrightarrow> - 126 \<le> k \<Longrightarrow> exponent32 x \<le> k"
proof (rule ccontr)
  assume x: "x \<noteq> 0" and b: "\<bar>x\<bar> < pow2 (k + 1)" and k: "- 126 \<le> k" and "\<not> exponent32 x \<le> k"
  then have g: "k + 1 \<le> exponent32 x" by simp
  then have "- 126 < exponent32 x" using k by simp
  from exponent32_lower [OF x this] have "pow2 (k + 1) \<le> \<bar>x\<bar>"
    using g by (meson order_trans pow2_le_iff)
  with b show False by simp
qed

lemma exponent32_eq:
  "x \<noteq> 0 \<Longrightarrow> pow2 e \<le> \<bar>x\<bar> \<Longrightarrow> \<bar>x\<bar> < pow2 (e + 1) \<Longrightarrow> - 126 \<le> e \<Longrightarrow> exponent32 x = e"
proof -
  assume x: "x \<noteq> 0" and l: "pow2 e \<le> \<bar>x\<bar>" and u: "\<bar>x\<bar> < pow2 (e + 1)" and e: "- 126 \<le> e"
  have "\<lfloor>log 2 \<bar>x\<bar>\<rfloor> = e"
    using floor_log_eq_powr_iff [of "\<bar>x\<bar>" 2 e] x l u by (simp add: pow2_powr)
  then show ?thesis using e by (simp add: exponent32_def)
qed

lemma fl32_eval:
  "x \<noteq> 0 \<Longrightarrow> pow2 e \<le> \<bar>x\<bar> \<Longrightarrow> \<bar>x\<bar> < pow2 (e + 1) \<Longrightarrow> - 126 \<le> e \<Longrightarrow>
     fl32 x = of_int (rne (x / pow2 (e - 23))) * pow2 (e - 23)"
  by (simp add: fl32_def ulp32_def exponent32_eq)

lemma rne_of_int [simp]: "rne (of_int n) = n"
  by (simp add: rne_def)

lemma rne_ge: "of_int n \<le> y \<Longrightarrow> n \<le> rne y"
proof -
  assume "of_int n \<le> y"
  then have "n \<le> \<lfloor>y\<rfloor>" by (simp add: le_floor_iff)
  then show ?thesis by (simp add: rne_def)
qed

lemma rne_le: "y \<le> of_int n \<Longrightarrow> rne y \<le> n"
proof (cases "y = of_int n")
  case True
  then show ?thesis by simp
next
  case False
  assume "y \<le> of_int n"
  with False have "y < of_int n" by simp
  then have "\<lfloor>y\<rfloor> < n" by (simp add: floor_less_iff)
  then show ?thesis by (simp add: rne_def)
qed

lemma rne_err: "\<bar>of_int (rne y) - y\<bar> \<le> 1 / 2"
proof -
  have "of_int \<lfloor>y\<rfloor> \<le> y" "y < of_int \<lfloor>y\<rfloor> + 1" by linarith+
  then show ?thesis by (auto simp: rne_def)
qed

lemma rne_below_half: "y < of_int n + 1 / 2 \<Longrightarrow> rne y \<le> n"
proof -
  assume a: "y < of_int n + 1 / 2"
  have f: "of_int \<lfloor>y\<rfloor> \<le> y" by simp
  then have "of_int \<lfloor>y\<rfloor> < (of_int n :: real) + 1 / 2" using a by linarith
  then have "of_int \<lfloor>y\<rfloor> < (of_int (n + 1) :: real)" by simp
  then have le: "\<lfloor>y\<rfloor> \<le> n" using of_int_less_iff [of "\<lfloor>y\<rfloor>" "n + 1", where ?'a = real] by linarith
  show ?thesis
  proof (cases "\<lfloor>y\<rfloor> = n")
    case True
    with a have "y - of_int \<lfloor>y\<rfloor> < 1 / 2" by simp
    then show ?thesis using True by (simp add: rne_def)
  next
    case False
    with le have "\<lfloor>y\<rfloor> + 1 \<le> n" by simp
    then show ?thesis by (simp add: rne_def)
  qed
qed

lemma fl32_0 [simp]: "fl32 0 = 0"
  by (simp add: fl32_def)

lemma pow2_nonzero [simp]: "pow2 k \<noteq> 0"
  by (simp add: pow2_def)

lemma abs_pow2 [simp]: "\<bar>pow2 k\<bar> = pow2 k"
  by (simp add: pow2_def)

lemma ulp32_pos [simp]: "0 < ulp32 q"
  by (simp add: ulp32_def)

lemma ulp32_nonzero [simp]: "ulp32 q \<noteq> 0"
  by (simp add: ulp32_def)

lemma abs_ulp32 [simp]: "\<bar>ulp32 q\<bar> = ulp32 q"
  by (simp add: ulp32_def)

lemma pow2_nonneg [simp]: "0 \<le> pow2 k"
  by (simp add: pow2_def)

lemma ulp32_nonneg [simp]: "0 \<le> ulp32 q"
  by (simp add: ulp32_def)

lemma pow2_16: "pow2 16 = 65536"
  by (simp add: pow2_def)

lemma pow2_24: "pow2 24 = 16777216"
  by (simp add: pow2_def)

lemma fl32_multiple:
  assumes "x = of_int n * ulp32 x"
  shows "fl32 x = x"
proof (cases "x = 0")
  case True
  then show ?thesis by simp
next
  case False
  have "x / ulp32 x = (of_int n * ulp32 x) / ulp32 x"
    using assms by (rule arg_cong [where f = "\<lambda>t. t / ulp32 x"])
  then have "x / ulp32 x = of_int n"
    by simp
  then have "fl32 x = of_int n * ulp32 x"
    using False by (simp add: fl32_def)
  then show ?thesis
    using assms by simp
qed

lemma pow2_split:
  assumes "e \<le> j"
  shows "pow2 j = of_int (2 ^ nat (j - e)) * pow2 e"
proof -
  have "pow2 j = pow2 ((j - e) + e)" by simp
  also have "\<dots> = pow2 (j - e) * pow2 e" by (rule pow2_add)
  also have "pow2 (j - e) = of_int (2 ^ nat (j - e))"
    using assms by (intro pow2_int) simp
  finally show ?thesis .
qed

lemma grid_multiple:
  assumes "q \<noteq> 0" "\<bar>q\<bar> < pow2 (j + 24)" "- 149 \<le> j"
  shows "of_int k * pow2 j = of_int (k * 2 ^ nat (j - (exponent32 q - 23))) * ulp32 q"
proof -
  have "exponent32 q \<le> j + 23"
    using assms by (intro exponent32_le) (simp_all add: add.commute add.left_commute)
  then have "exponent32 q - 23 \<le> j" by simp
  from pow2_split [OF this] show ?thesis
    by (simp add: ulp32_def)
qed

lemma fl32_rne: "q \<noteq> 0 \<Longrightarrow> fl32 q = of_int (rne (q / ulp32 q)) * ulp32 q"
  by (simp add: fl32_def)

lemma fl32_grid_ge:
  assumes "q \<noteq> 0" "\<bar>q\<bar> < pow2 (j + 24)" "- 149 \<le> j" "of_int k * pow2 j \<le> q"
  shows "of_int k * pow2 j \<le> fl32 q"
proof -
  let ?n = "k * 2 ^ nat (j - (exponent32 q - 23))"
  have g: "of_int k * pow2 j = of_int ?n * ulp32 q"
    using assms(1-3) by (rule grid_multiple)
  have "of_int ?n * ulp32 q \<le> q"
    using assms(4) unfolding g .
  then have "of_int ?n \<le> q / ulp32 q"
    by (simp add: pos_le_divide_eq)
  then have "?n \<le> rne (q / ulp32 q)" by (rule rne_ge)
  then have "(of_int ?n :: real) \<le> of_int (rne (q / ulp32 q))"
    by (simp only: of_int_le_iff)
  then have "of_int ?n * ulp32 q \<le> of_int (rne (q / ulp32 q)) * ulp32 q"
    by (rule mult_right_mono) simp
  then show ?thesis
    unfolding g fl32_rne [OF assms(1)] .
qed

lemma fl32_grid_le:
  assumes "q \<noteq> 0" "\<bar>q\<bar> < pow2 (j + 24)" "- 149 \<le> j" "q \<le> of_int k * pow2 j"
  shows "fl32 q \<le> of_int k * pow2 j"
proof -
  let ?n = "k * 2 ^ nat (j - (exponent32 q - 23))"
  have g: "of_int k * pow2 j = of_int ?n * ulp32 q"
    using assms(1-3) by (rule grid_multiple)
  have "q \<le> of_int ?n * ulp32 q"
    using assms(4) unfolding g .
  then have "q / ulp32 q \<le> of_int ?n"
    by (simp add: pos_divide_le_eq)
  then have "rne (q / ulp32 q) \<le> ?n" by (rule rne_le)
  then have "(of_int (rne (q / ulp32 q)) :: real) \<le> of_int ?n"
    by (simp only: of_int_le_iff)
  then have "of_int (rne (q / ulp32 q)) * ulp32 q \<le> of_int ?n * ulp32 q"
    by (rule mult_right_mono) simp
  then show ?thesis
    unfolding g fl32_rne [OF assms(1)] .
qed

lemma fl32_representable_lt:
  assumes "\<bar>m\<bar> < 2 ^ 24" "- 149 \<le> j"
  shows "fl32 (of_int m * pow2 j) = of_int m * pow2 j"
proof (cases "m = 0")
  case True
  then show ?thesis by simp
next
  case False
  let ?x = "of_int m * pow2 j :: real"
  have x: "?x \<noteq> 0" using False by simp
  have "\<bar>?x\<bar> = of_int \<bar>m\<bar> * pow2 j"
    by (simp add: abs_mult)
  also have "\<dots> < of_int (2 ^ 24) * pow2 j"
    using assms(1) by (intro mult_strict_right_mono) (simp_all del: of_int_power)
  also have "\<dots> = pow2 (j + 24)"
    by (simp add: pow2_add pow2_24)
  finally have "\<bar>?x\<bar> < pow2 (j + 24)" .
  from grid_multiple [OF x this assms(2), of m] show ?thesis
    by (rule fl32_multiple)
qed

lemma fl32_representable:
  assumes "\<bar>m\<bar> \<le> 2 ^ 24" "- 149 \<le> j"
  shows "fl32 (of_int m * pow2 j) = of_int m * pow2 j"
proof (cases "\<bar>m\<bar> < 2 ^ 24")
  case True
  then show ?thesis using assms(2) by (rule fl32_representable_lt)
next
  case False
  with assms(1) have "m = 16777216 \<or> m = - 16777216" by (auto simp: abs_if split: if_splits)
  then have m: "m = 2 * (m div 2)" and h: "\<bar>m div 2\<bar> < 2 ^ 24"
    by auto
  have "pow2 (j + 1) = pow2 j * 2"
    by (simp add: pow2_add) (simp add: pow2_def)
  moreover have "(of_int m :: real) = 2 * of_int (m div 2)"
    by (subst m) simp
  ultimately have "of_int m * pow2 j = of_int (m div 2) * pow2 (j + 1)"
    by simp
  moreover have "fl32 (of_int (m div 2) * pow2 (j + 1)) = of_int (m div 2) * pow2 (j + 1)"
    using h assms(2) by (intro fl32_representable_lt) simp_all
  ultimately show ?thesis by simp
qed

lemma fl32_mantissa:
  assumes "q \<noteq> 0"
  shows "\<bar>rne (q / ulp32 q)\<bar> \<le> 2 ^ 24"
proof -
  have "\<bar>q\<bar> < pow2 (exponent32 q + 1)"
    using assms by (rule exponent32_upper)
  also have "pow2 (exponent32 q + 1) = of_int (2 ^ 24) * ulp32 q"
    using pow2_split [of "exponent32 q - 23" "exponent32 q + 1"] by (simp add: ulp32_def)
  finally have "- (of_int (2 ^ 24) * ulp32 q) < q" "q < of_int (2 ^ 24) * ulp32 q"
    by (simp_all add: abs_less_iff)
  then have "of_int (- (2 ^ 24)) \<le> q / ulp32 q" "q / ulp32 q \<le> of_int (2 ^ 24)"
    by (simp_all add: pos_le_divide_eq pos_divide_le_eq)
  then have "- (2 ^ 24) \<le> rne (q / ulp32 q)" "rne (q / ulp32 q) \<le> 2 ^ 24"
    using rne_ge [of "- (2 ^ 24)" "q / ulp32 q"] rne_le [of "q / ulp32 q" "2 ^ 24"] by simp_all
  then show ?thesis by (simp add: abs_le_iff)
qed

lemma fl32_scale: "fl32 (fl32 q * 65536) = fl32 q * 65536"
proof (cases "q = 0")
  case True
  then show ?thesis by simp
next
  case False
  let ?m = "rne (q / ulp32 q)" and ?j = "exponent32 q - 23"
  have "pow2 (?j + 16) = ulp32 q * 65536"
    unfolding pow2_add pow2_16 ulp32_def ..
  then have "fl32 q * 65536 = of_int ?m * pow2 (?j + 16)"
    using False by (simp add: fl32_rne)
  moreover have "fl32 (of_int ?m * pow2 (?j + 16)) = of_int ?m * pow2 (?j + 16)"
    using fl32_mantissa [OF False] exponent32_ge [of q] by (intro fl32_representable) simp_all
  ultimately show ?thesis by simp
qed

lemma fl32_nat:
  assumes "d \<le> 2 ^ 24"
  shows "fl32 (real d) = real d"
  using fl32_representable [of "int d" 0] assms by (simp add: pow2_def)

lemma fl32_err:
  assumes "0 < q" "q < 1"
  shows "\<bar>fl32 q - q\<bar> \<le> 1 / 2 ^ 25"
proof -
  have q: "q \<noteq> 0" using assms by simp
  have "exponent32 q \<le> - 1"
    using assms by (intro exponent32_le) (simp_all add: pow2_def)
  then have u: "ulp32 q \<le> pow2 (- 24)"
    by (simp add: ulp32_def)
  have "fl32 q - q = (of_int (rne (q / ulp32 q)) - q / ulp32 q) * ulp32 q"
    using q by (simp add: fl32_rne field_simps)
  then have "\<bar>fl32 q - q\<bar> = \<bar>of_int (rne (q / ulp32 q)) - q / ulp32 q\<bar> * ulp32 q"
    by (simp add: abs_mult)
  also have "\<dots> \<le> (1 / 2) * pow2 (- 24)"
    using rne_err [of "q / ulp32 q"] u by (intro mult_mono) simp_all
  also have "\<dots> = 1 / 2 ^ 25"
    by (simp add: pow2_def)
  finally show ?thesis .
qed

lemma fl32_nonneg: "0 \<le> q \<Longrightarrow> 0 \<le> fl32 q"
proof (cases "q = 0")
  case True
  then show ?thesis by simp
next
  case False
  assume "0 \<le> q"
  then have "of_int 0 \<le> q / ulp32 q" by simp
  then have "0 \<le> rne (q / ulp32 q)" by (rule rne_ge)
  then show ?thesis using False by (simp add: fl32_rne)
qed

lemma fl32_quotient_less_1:
  fixes d :: nat
  assumes fa: "fl32 a = a" and a0: "0 \<le> a" and ad: "a < real d" and d: "d \<le> 2 ^ 24"
  shows "fl32 (a / real d) < 1"
proof (cases "a = 0")
  case True
  then show ?thesis by simp
next
  case False
  with a0 have a: "0 < a" by simp
  have dpos: "0 < real d" using a ad by simp
  let ?u = "ulp32 a" and ?n = "rne (a / ulp32 a)"
  have an: "a = of_int ?n * ?u"
    using fa fl32_rne [OF False] by simp
  have "real d \<le> 2 ^ 24"
    using d by (metis of_nat_le_iff of_nat_numeral of_nat_power)
  then have "\<bar>a\<bar> < pow2 (23 + 1)"
    using a ad by (simp add: pow2_def)
  then have e: "exponent32 a \<le> 23"
    using False by (intro exponent32_le) simp_all
  then have "exponent32 a - 23 \<le> 0" by simp
  from pow2_split [OF this]
  have one: "of_int (2 ^ nat (0 - (exponent32 a - 23))) * ?u = 1"
    by (simp add: ulp32_def pow2_def)
  let ?N = "2 ^ nat (0 - (exponent32 a - 23)) :: int"
  have dn: "real d = of_int (int d * ?N) * ?u"
  proof -
    have "real d = real d * (of_int ?N * ?u)"
      by (simp only: one mult_1_right)
    then show ?thesis
      by (simp add: mult.assoc)
  qed
  have an': "of_int ?n * ?u = a"
    using an by (rule sym)
  have dn': "of_int (int d * ?N) * ?u = real d"
    using dn by (rule sym)
  have "of_int ?n * ?u < of_int (int d * ?N) * ?u"
    using ad by (simp only: an' dn')
  then have "(of_int ?n :: real) < of_int (int d * ?N)"
    by (simp only: mult_less_cancel_right_pos [OF ulp32_pos])
  then have "?n < int d * ?N"
    by (simp only: of_int_less_iff)
  then have "?n + 1 \<le> int d * ?N" by simp
  then have "(of_int (?n + 1) :: real) \<le> of_int (int d * ?N)"
    by (simp only: of_int_le_iff)
  then have "of_int (?n + 1) * ?u \<le> of_int (int d * ?N) * ?u"
    by (rule mult_right_mono) simp
  moreover have "of_int (?n + 1) * ?u = of_int ?n * ?u + ?u"
    by (simp add: algebra_simps)
  ultimately have step: "a + ?u \<le> real d"
    by (simp only: an' dn')
  have "\<bar>a\<bar> < pow2 (exponent32 a + 1)"
    using False by (rule exponent32_upper)
  also have "pow2 (exponent32 a + 1) = of_int (2 ^ 24) * ?u"
    using pow2_split [of "exponent32 a - 23" "exponent32 a + 1"] by (simp add: ulp32_def)
  finally have "a < 2 ^ 24 * ?u" using a by simp
  then have "a / 2 ^ 24 < ?u" by (simp add: field_simps)
  with step have "a + a / 2 ^ 24 < real d" by simp
  then have "a * (1 + 1 / 2 ^ 24) < real d" by (simp add: algebra_simps)
  then have q1: "a / real d * (1 + 1 / 2 ^ 24) < 1"
    using dpos by (simp add: field_simps)
  let ?q = "a / real d"
  have q0: "0 < ?q" using a dpos by simp
  have "?q * 1 \<le> ?q * ((1 + 1 / 2 ^ 24) * (1 - 1 / 2 ^ 25))"
    using q0 by (intro mult_left_mono) simp_all
  also have "\<dots> = (?q * (1 + 1 / 2 ^ 24)) * (1 - 1 / 2 ^ 25)"
    by (simp only: mult.assoc)
  also have "\<dots> < 1 * (1 - 1 / 2 ^ 25)"
    using q1 by (intro mult_strict_right_mono) simp_all
  finally have qb: "?q < 1 - 1 / 2 ^ 25" by simp
  have qn: "?q \<noteq> 0" using a dpos by simp
  have "(1 :: real) - 1 / 2 ^ 25 < 1" by simp
  with qb have "?q < 1" by (rule less_trans)
  then have "\<bar>?q\<bar> < pow2 (- 1 + 1)"
    using q0 by (simp add: pow2_def abs_if)
  then have eq: "exponent32 ?q \<le> - 1"
    using qn by (intro exponent32_le) simp_all
  then have "exponent32 ?q - 23 \<le> - 24" by simp
  from pow2_split [OF this]
  have m: "pow2 (- 24) = of_int (2 ^ nat (- 24 - (exponent32 ?q - 23))) * ulp32 ?q"
    by (simp add: ulp32_def)
  let ?K = "2 ^ nat (- 24 - (exponent32 ?q - 23)) :: int"
  let ?M = "2 ^ 24 * ?K"
  have K1: "1 \<le> ?K" by simp
  have M: "of_int ?M * ulp32 ?q = 1"
  proof -
    have "of_int ?M * ulp32 ?q = 2 ^ 24 * (of_int ?K * ulp32 ?q)"
      by (simp add: mult.assoc)
    also have "\<dots> = 2 ^ 24 * pow2 (- 24)" by (simp only: m)
    also have "\<dots> = 1" by (simp add: pow2_def)
    finally show ?thesis .
  qed
  have Mpos: "(0 :: real) < of_int ?M" by simp
  have uq: "ulp32 ?q = 1 / of_int ?M"
    using M Mpos by (simp add: field_simps)
  have "?q / ulp32 ?q = ?q * of_int ?M"
    by (simp add: uq)
  also have "\<dots> < (1 - 1 / 2 ^ 25) * of_int ?M"
    using qb by (intro mult_strict_right_mono) simp_all
  also have "\<dots> = of_int ?M - of_int ?K / 2"
    by (simp add: algebra_simps)
  also have "\<dots> \<le> of_int ?M - 1 / 2"
    using K1 by simp
  also have "\<dots> = of_int (?M - 1) + 1 / 2"
    by simp
  finally have "rne (?q / ulp32 ?q) \<le> ?M - 1"
    by (rule rne_below_half)
  then have "(of_int (rne (?q / ulp32 ?q)) :: real) \<le> of_int (?M - 1)"
    by (simp only: of_int_le_iff)
  then have "of_int (rne (?q / ulp32 ?q)) * ulp32 ?q \<le> of_int (?M - 1) * ulp32 ?q"
    by (rule mult_right_mono) simp
  also have "\<dots> = of_int ?M * ulp32 ?q - ulp32 ?q"
    by (simp add: algebra_simps)
  also have "\<dots> = 1 - ulp32 ?q"
    by (simp only: M)
  also have "\<dots> < 1" by simp
  finally show ?thesis
    using qn by (simp add: fl32_rne)
qed

section \<open>The fixed-point encodings\<close>

lemma uint_to_u16:
  assumes "0 \<le> v"
  shows "uint (to_u16 v) = \<lfloor>v\<rfloor> mod 65536"
  using assms by (simp add: to_u16_def trunc_toward_zero_def uint_word_of_int_eq take_bit_eq_mod)

lemma scaled_fixed:
  assumes "0 \<le> q"
  shows "uint (to_u16 (fmul (fl32 q) 65536)) = \<lfloor>fl32 q * 65536\<rfloor> mod 65536"
proof -
  have "0 \<le> fl32 q * 65536"
    using fl32_nonneg [OF assms] by simp
  then show ?thesis
    by (simp add: fmul_def fl32_scale uint_to_u16)
qed

lemma fl32_steps:
  assumes "0 \<le> q" "q < 1"
  shows "\<lfloor>q * 65536\<rfloor> \<le> \<lfloor>fl32 q * 65536\<rfloor>" "\<lfloor>fl32 q * 65536\<rfloor> \<le> \<lfloor>q * 65536\<rfloor> + 1"
proof -
  let ?k = "\<lfloor>q * 65536\<rfloor>"
  have p: "pow2 (- 16) = 1 / 65536" by (simp add: pow2_def)
  have lo: "of_int ?k * pow2 (- 16) \<le> q" and hi: "q \<le> of_int (?k + 1) * pow2 (- 16)"
    unfolding p by (simp_all add: field_simps) linarith+
  have g: "of_int ?k * pow2 (- 16) \<le> fl32 q \<and> fl32 q \<le> of_int (?k + 1) * pow2 (- 16)"
  proof (cases "q = 0")
    case True
    then show ?thesis by simp
  next
    case False
    have b: "\<bar>q\<bar> < pow2 (- 16 + 24)"
      using assms by (simp add: pow2_def)
    show ?thesis
      using fl32_grid_ge [OF False b _ lo] fl32_grid_le [OF False b _ hi] by simp
  qed
  then have "of_int ?k \<le> fl32 q * 65536" "fl32 q * 65536 \<le> of_int (?k + 1)"
    unfolding p by (simp_all add: field_simps)
  then show "?k \<le> \<lfloor>fl32 q * 65536\<rfloor>" "\<lfloor>fl32 q * 65536\<rfloor> \<le> ?k + 1"
    by (simp_all add: le_floor_iff floor_le_iff)
qed

lemma fl32_upper:
  assumes "0 \<le> q" "q < 1"
  shows "fl32 q \<le> q + 1 / 2 ^ 25"
proof (cases "q = 0")
  case True
  then show ?thesis by simp
next
  case False
  with assms have "0 < q" by simp
  from fl32_err [OF this assms(2)] have "fl32 q - q \<le> 1 / 2 ^ 25"
    by (rule order_trans [OF abs_ge_self])
  then show ?thesis by linarith
qed

lemma float_of_unsigned_exact: "n \<le> 2 ^ 24 \<Longrightarrow> float_of_unsigned n = real n"
  by (simp add: float_of_unsigned_def fl32_nat)

lemma encoding_component:
  fixes d :: nat
  assumes "0 \<le> p" "p < real d"
  shows "uint (to_u16 (fmul (fdiv p (real d)) 65536)) = \<lfloor>fdiv p (real d) * 65536\<rfloor> mod 65536
    \<and> (uint (to_u16 (fmul (fdiv p (real d)) 65536)) = \<lfloor>p / real d * 65536\<rfloor> mod 65536
       \<or> uint (to_u16 (fmul (fdiv p (real d)) 65536)) = (\<lfloor>p / real d * 65536\<rfloor> + 1) mod 65536)"
proof -
  let ?q = "p / real d"
  have d: "0 < real d" using assms by linarith
  have q: "0 \<le> ?q" "?q < 1" using assms d by simp_all
  have s: "uint (to_u16 (fmul (fdiv p (real d)) 65536)) = \<lfloor>fl32 ?q * 65536\<rfloor> mod 65536"
    unfolding fdiv_def using q(1) by (rule scaled_fixed)
  have "\<lfloor>fl32 ?q * 65536\<rfloor> = \<lfloor>?q * 65536\<rfloor> \<or> \<lfloor>fl32 ?q * 65536\<rfloor> = \<lfloor>?q * 65536\<rfloor> + 1"
    using fl32_steps [OF q] by linarith
  then show ?thesis
    using s by (auto simp: fdiv_def)
qed

lemma round_trip_component:
  fixes d :: nat
  assumes "fl32 p = p" "0 \<le> p" "p < real d" "d \<le> 2 ^ 24"
  shows "\<bar>real_of_int (uint (to_u16 (fmul (fdiv p (real d)) 65536))) / 65536 * real d - p\<bar> < real d / 65536"
proof -
  let ?q = "p / real d"
  define s where "s = \<lfloor>fl32 ?q * 65536\<rfloor>"
  have d: "0 < real d" using assms by linarith
  have q: "0 \<le> ?q" "?q < 1" using assms d by simp_all
  have f0: "0 \<le> fl32 ?q" using q(1) by (rule fl32_nonneg)
  have f1: "fl32 ?q < 1" using assms by (rule fl32_quotient_less_1)
  have "0 \<le> s" "s < 65536"
    using f0 f1 by (simp_all add: s_def floor_less_iff)
  then have u: "uint (to_u16 (fmul (fdiv p (real d)) 65536)) = s"
    using scaled_fixed [OF q(1)] by (simp add: fdiv_def s_def)
  have "\<lfloor>?q * 65536\<rfloor> \<le> s"
    unfolding s_def using q by (rule fl32_steps)
  moreover have "?q * 65536 - 1 < of_int \<lfloor>?q * 65536\<rfloor>" by linarith
  ultimately have lo: "?q * 65536 - 1 < of_int s" by linarith
  have "of_int s \<le> fl32 ?q * 65536" by (simp add: s_def)
  moreover have "fl32 ?q * 65536 \<le> (?q + 1 / 2 ^ 25) * 65536"
    using fl32_upper [OF q] by simp
  ultimately have hi: "of_int s \<le> ?q * 65536 + 1 / 512" by (simp add: algebra_simps)
  have p: "p = ?q * real d" using d by simp
  have a: "(?q * 65536 - 1) * (real d / 65536) < of_int s * (real d / 65536)"
    using lo d by (intro mult_strict_right_mono) simp_all
  have b: "of_int s * (real d / 65536) \<le> (?q * 65536 + 1 / 512) * (real d / 65536)"
    using hi d by (intro mult_right_mono) simp_all
  have a': "(?q * 65536 - 1) * (real d / 65536) = p - real d / 65536"
    using d by (simp add: field_simps)
  have b': "(?q * 65536 + 1 / 512) * (real d / 65536) = p + real d / 33554432"
    using d by (simp add: field_simps)
  have "real d / 33554432 < real d / 65536"
    using d by simp
  moreover have "p - real d / 65536 < of_int s * (real d / 65536)"
    using a unfolding a' .
  moreover have "of_int s * (real d / 65536) \<le> p + real d / 33554432"
    using b unfolding b' .
  ultimately have "p - real d / 65536 < of_int s * (real d / 65536)"
    "of_int s * (real d / 65536) < p + real d / 65536"
    by linarith+
  moreover have "of_int s / 65536 * real d = of_int s * (real d / 65536)"
    by simp
  ultimately have "\<bar>of_int s / 65536 * real d - p\<bar> < real d / 65536"
    unfolding abs_less_iff by linarith
  then show ?thesis
    unfolding u .
qed

lemma fl32_45: "fl32 (181 / 1440) = 8435211 / 67108864"
proof -
  have "fl32 (181 / 1440) = of_int (rne (181 / 1440 / pow2 (- 3 - 23))) * pow2 (- 3 - 23)"
    by (rule fl32_eval) (simp_all add: pow2_def)
  also have "\<dots> = 8435211 / 67108864"
    by (simp add: pow2_def rne_def)
  finally show ?thesis .
qed

lemma is_float32_45: "is_float32 (181 / 4)"
  using fl32_representable [of 181 "- 2"] by (simp add: is_float32_def pow2_def)

lemma fl32_quarter: "fl32 (1 / 4) = 1 / 4"
  using fl32_representable [of 1 "- 2"] by (simp add: pow2_def)

lemma fl32_half: "fl32 (1 / 2) = 1 / 2"
  using fl32_representable [of 1 "- 1"] by (simp add: pow2_def)

lemma fl32_numeral_nat: "numeral n \<le> (2 ^ 24 :: nat) \<Longrightarrow> fl32 (numeral n) = numeral n"
  using fl32_nat [of "numeral n"] by simp

lemma sample_fixed:
  "angle_fixed sample_keypoint = 16384" "x_fixed 200 sample_keypoint = 32768"
  "y_fixed 200 sample_keypoint = 16384"
  by (simp_all add: angle_fixed_def x_fixed_def y_fixed_def sample_keypoint_def fdiv_def fmul_def
      float_of_unsigned_def fl32_quarter fl32_half fl32_numeral_nat to_u16_def trunc_toward_zero_def)

lemma fl32_x: "fl32 (164101 / 328192) = 32769 / 65536"
proof -
  have "fl32 (164101 / 328192) = of_int (rne (164101 / 328192 / pow2 (- 1 - 23))) * pow2 (- 1 - 23)"
    by (rule fl32_eval) (simp_all add: pow2_def)
  also have "\<dots> = 32769 / 65536"
    by (simp add: pow2_def rne_def)
  finally show ?thesis .
qed

lemma fl32_y: "fl32 (199 / 200) = 8346665 / 8388608"
proof -
  have "fl32 (199 / 200) = of_int (rne (199 / 200 / pow2 (- 1 - 23))) * pow2 (- 1 - 23)"
    by (rule fl32_eval) (simp_all add: pow2_def)
  also have "\<dots> = 8346665 / 8388608"
    by (simp add: pow2_def rne_def)
  finally show ?thesis .
qed

lemma is_float32_samples: "is_float32 (164101 / 512)" "is_float32 199"
  using fl32_representable [of 164101 "- 9"] fl32_representable [of 199 0]
  by (simp_all add: is_float32_def pow2_def)

section \<open>Sample runs\<close>

lemma hitFileName_7: "hitFileName 7 = ''imageHits/7.dat''"
  by code_simp

lemmas sample_defs = sample_env_def sample_world_def sample_image_def sample_keypoint_def

lemmas run_defs = processNewImage_def openHitFile_def ofs_open_def ofs_close_def
      Let_def log_query_def log_hit_def writeHit_def ofs_write_def length_object_bytes sendReply_def

lemma sample_run_ok:
  "fst (processNewImage (sample_env (Decoded (sample_image 200 200))) 7 0 [] (sample_world 100))"
  by (simp add: sample_defs run_defs)

section \<open>Quantization: queries and hits\<close>

text \<open>
  Claim C1. In a request that completes, the engine issues one nearest-neighbour query
  with \<open>k = 4\<close> per keypoint, with the descriptor of that keypoint and in keypoint order.
  The hits produced are the groups of the keypoints one after the other, in keypoint order;
  a group has 4 hits when the index fills the 4 slots of \<open>indices\<close>, its word ids are the
  entries of \<open>indices\<close> in the order of the index, and its first word id is the first
  entry, the nearest neighbour of the index.
\<close>

theorem processNewImage_queries_and_hits:
  assumes ok: "fst (processNewImage e imageId n buf w)"
    and dec: "imdecode e (take n buf) = Decoded img"
    and four: "\<forall>d. length (fst (knnSearch e d 4)) = 4"
  shows "queries (snd (processNewImage e imageId n buf w)) = queries w @ map (\<lambda>kd. (snd kd, 4)) (sift e img)
    \<and> hits (snd (processNewImage e imageId n buf w))
        = hits w @ concat (map (keypoint_hits e imageId (cols img) (rows img)) (sift e img))
    \<and> (\<forall>kd. length (keypoint_hits e imageId (cols img) (rows img) kd) = 4
          \<and> map i_wordId (keypoint_hits e imageId (cols img) (rows img) kd)
              = map word_of_int (fst (knnSearch e (snd kd) 4))
          \<and> i_wordId (hd (keypoint_hits e imageId (cols img) (rows img) kd))
              = word_of_int (hd (fst (knnSearch e (snd kd) 4))))"
proof -
  obtain w' where r: "processNewImage e imageId n buf w = (True, w')"
    using ok by (cases "processNewImage e imageId n buf w") simp
  let ?s0 = "snd (openHitFile (\<lparr>ofs_path = None, ofs_good = True\<rparr>, w\<lparr>detected := detected w @ [img]\<rparr>) imageId)"
  let ?k = "keypoint_loop e imageId (cols img) (rows img) (sift e img) ?s0"
  from r dec have k: "fst ?k" and w': "w' = sendReply OK (snd (ofs_close (snd ?k)))"
    by (auto elim!: processNewImage_True)
  have q: "queries w' = queries w @ map (\<lambda>kd. (snd kd, 4)) (sift e img)"
    and h: "hits w' = hits w @ concat (map (keypoint_hits e imageId (cols img) (rows img)) (sift e img))"
    using keypoint_loop_hits [OF k] w'
    by (simp_all add: sendReply_def ofs_close_def openHitFile_logs)
  have g: "length (keypoint_hits e imageId (cols img) (rows img) kd) = 4
      \<and> map i_wordId (keypoint_hits e imageId (cols img) (rows img) kd) = map word_of_int (fst (knnSearch e (snd kd) 4))
      \<and> i_wordId (hd (keypoint_hits e imageId (cols img) (rows img) kd)) = word_of_int (hd (fst (knnSearch e (snd kd) 4)))" for kd
  proof -
    have "fst (knnSearch e (snd kd) 4) \<noteq> []"
      using four [rule_format, of "snd kd"] by auto
    then show ?thesis
      using four by (simp add: keypoint_hits_def newHit_def comp_def hd_map)
  qed
  show ?thesis
    using q h g by (simp add: r)
qed

theorem processNewImage_queries_and_hits_witness:
  "queries (snd (processNewImage (sample_env (Decoded (sample_image 200 200))) 7 0 [] (sample_world 100))) = [([], 4)]
   \<and> map i_wordId (hits (snd (processNewImage (sample_env (Decoded (sample_image 200 200))) 7 0 [] (sample_world 100))))
       = [3, 1, 4, 5]"
  using processNewImage_queries_and_hits [OF sample_run_ok, of "sample_image 200 200"]
  by (simp add: sample_defs keypoint_hits_def newHit_def)

text \<open>
  Claim C10. The hits of a request that decoded its image are groups, one per keypoint the
  loop reached, in keypoint order (all of them when the request completes), and every hit of
  the group of keypoint \<open>j\<close> carries the image id of the request and the angle, x and y
  encodings of keypoint \<open>j\<close>: within a group only the word id can differ.
\<close>

theorem processNewImage_hit_groups:
  assumes dec: "imdecode e (take n buf) = Decoded img"
  shows "\<exists>gs. hits (snd (processNewImage e imageId n buf w)) = hits w @ concat gs
      \<and> length gs \<le> length (sift e img)
      \<and> (fst (processNewImage e imageId n buf w) \<longrightarrow> length gs = length (sift e img))
      \<and> (\<forall>j<length gs. \<forall>h\<in>set (gs ! j).
            i_imageId h = imageId \<and> i_angle h = angle_fixed (fst (sift e img ! j))
            \<and> hit_x h = x_fixed (cols img) (fst (sift e img ! j))
            \<and> hit_y h = y_fixed (rows img) (fst (sift e img ! j)))"
proof -
  let ?W = "cols img" and ?H = "rows img" and ?kps = "sift e img"
  let ?s0 = "snd (openHitFile (\<lparr>ofs_path = None, ofs_good = True\<rparr>, w\<lparr>detected := detected w @ [img]\<rparr>) imageId)"
  let ?k = "keypoint_loop e imageId ?W ?H ?kps ?s0"
  let ?r = "processNewImage e imageId n buf w"
  have fields: "\<forall>j<length gs. \<forall>h\<in>set (gs ! j).
            i_imageId h = imageId \<and> i_angle h = angle_fixed (fst (?kps ! j))
            \<and> hit_x h = x_fixed ?W (fst (?kps ! j)) \<and> hit_y h = y_fixed ?H (fst (?kps ! j))"
    if "\<forall>j<length gs. \<exists>m. gs ! j = take m (keypoint_hits e imageId ?W ?H (?kps ! j))" for gs
  proof (intro allI impI ballI)
    fix j h assume "j < length gs" "h \<in> set (gs ! j)"
    with that obtain m where "h \<in> set (take m (keypoint_hits e imageId ?W ?H (?kps ! j)))"
      by metis
    then have "h \<in> set (keypoint_hits e imageId ?W ?H (?kps ! j))"
      by (rule in_set_takeD)
    then show "i_imageId h = imageId \<and> i_angle h = angle_fixed (fst (?kps ! j))
            \<and> hit_x h = x_fixed ?W (fst (?kps ! j)) \<and> hit_y h = y_fixed ?H (fst (?kps ! j))"
      by (rule keypoint_hits_fields)
  qed
  have "(hits (snd ?r) = hits (snd (snd ?k)) \<and> (fst ?r \<longrightarrow> fst ?k)) \<or> (hits (snd ?r) = hits w \<and> \<not> fst ?r)"
    using dec by (simp add: processNewImage_def Let_def sendReply_def ofs_close_def openHitFile_logs)
  then consider (run) "hits (snd ?r) = hits (snd (snd ?k))" "fst ?r \<longrightarrow> fst ?k" | (none) "hits (snd ?r) = hits w" "\<not> fst ?r"
    by blast
  then show ?thesis
  proof cases
    case none
    then have "hits (snd ?r) = hits w @ concat []" by simp
    with none(2) show ?thesis
      by (intro exI [of _ "[]"]) simp
  next
    case run
    show ?thesis
    proof (cases "fst ?k")
      case True
      let ?gs = "map (keypoint_hits e imageId ?W ?H) ?kps"
      have "hits (snd ?r) = hits w @ concat ?gs"
        using keypoint_loop_hits [OF True] run(1) by (simp add: openHitFile_logs)
      moreover have "\<forall>j<length ?gs. \<exists>m. ?gs ! j = take m (keypoint_hits e imageId ?W ?H (?kps ! j))"
        by (metis take_all order_refl nth_map length_map)
      ultimately show ?thesis
        using fields [of ?gs] by (intro exI [of _ ?gs]) simp
    next
      case False
      obtain gs where gs: "hits (snd (snd ?k)) = hits (snd ?s0) @ concat gs" "length gs \<le> length ?kps"
        "\<forall>j<length gs. \<exists>m. gs ! j = take m (keypoint_hits e imageId ?W ?H (?kps ! j))"
        using keypoint_loop_hits_any [of e imageId ?W ?H ?kps ?s0] by blast
      have "hits (snd ?r) = hits w @ concat gs"
        using gs(1) run(1) by (simp add: openHitFile_logs)
      then show ?thesis
        using fields [OF gs(3)] gs(2) run(2) False by (intro exI [of _ gs]) simp
    qed
  qed
qed

theorem processNewImage_hit_groups_witness:
  "map (\<lambda>h. (i_imageId h, i_angle h, hit_x h, hit_y h))
      (hits (snd (processNewImage (sample_env (Decoded (sample_image 200 200))) 7 0 [] (sample_world 100))))
     = [(7, 16384, 32768, 16384), (7, 16384, 32768, 16384), (7, 16384, 32768, 16384), (7, 16384, 32768, 16384)]"
  using processNewImage_hit_groups [of "sample_env (Decoded (sample_image 200 200))" 0 "[]" "sample_image 200 200" 7 "sample_world 100"]
  by (simp add: sample_env_def sample_world_def sample_image_def run_defs newHit_def sample_fixed)

section \<open>Decoding and validation\<close>

text \<open>
  Claim C9. When \<open>imdecode\<close> throws or returns a matrix without pixel data, the request
  returns \<open>false\<close>, its only effect is the one reply \<open>IMAGE_NOT_DECODED\<close>: no file is
  opened and the files on disk are as before.
\<close>

theorem processNewImage_undecodable:
  assumes "imdecode e (take n buf) = Decode_Exception
     \<or> (\<exists>img. imdecode e (take n buf) = Decoded img \<and> data img = None)"
  shows "processNewImage e imageId n buf w = (False, w\<lparr>replies := replies w @ [IMAGE_NOT_DECODED]\<rparr>)
    \<and> opened (snd (processNewImage e imageId n buf w)) = opened w
    \<and> files (snd (processNewImage e imageId n buf w)) = files w"
  using assms by (auto simp: processNewImage_def sendReply_def)

theorem processNewImage_undecodable_witness:
  "processNewImage (sample_env Decode_Exception) 7 3 [1, 2, 3] (sample_world 100)
      = (False, (sample_world 100)\<lparr>replies := [IMAGE_NOT_DECODED]\<rparr>)
   \<and> processNewImage (sample_env (Decoded \<lparr>cols = 0, rows = 0, data = None\<rparr>)) 7 3 [1, 2, 3] (sample_world 100)
      = (False, (sample_world 100)\<lparr>replies := [IMAGE_NOT_DECODED]\<rparr>)"
  using processNewImage_undecodable [of "sample_env Decode_Exception" 3 "[1, 2, 3]" 7 "sample_world 100"]
    processNewImage_undecodable [of "sample_env (Decoded \<lparr>cols = 0, rows = 0, data = None\<rparr>)" 3 "[1, 2, 3]" 7 "sample_world 100"]
  by (simp add: sample_defs)

text \<open>
  Claim C5. For a decoded image, the detector is run exactly when width and height are
  both in [200, 1000]. An image with a side above 1000, so one with a side of 1001, ends
  the request with \<open>IMAGE_SIZE_TOO_BIG\<close>; an image with no side above 1000 and a side
  below 200, so one with a side of 199, ends it with \<open>IMAGE_SIZE_TOO_SMALL\<close>. In both
  cases the reply is the only effect of the request.
\<close>

theorem processNewImage_size_check:
  assumes "imdecode e (take n buf) = Decoded img" and "data img \<noteq> None"
  shows "(detected (snd (processNewImage e imageId n buf w)) = detected w @ [img])
           = (200 \<le> cols img \<and> cols img \<le> 1000 \<and> 200 \<le> rows img \<and> rows img \<le> 1000)
    \<and> (1000 < cols img \<or> 1000 < rows img \<longrightarrow>
          processNewImage e imageId n buf w = (False, w\<lparr>replies := replies w @ [IMAGE_SIZE_TOO_BIG]\<rparr>))
    \<and> (cols img \<le> 1000 \<and> rows img \<le> 1000 \<and> (cols img < 200 \<or> rows img < 200) \<longrightarrow>
          processNewImage e imageId n buf w = (False, w\<lparr>replies := replies w @ [IMAGE_SIZE_TOO_SMALL]\<rparr>))"
  using assms
  by (auto simp: processNewImage_def sendReply_def Let_def keypoint_loop_logs openHitFile_logs ofs_close_def)

theorem processNewImage_size_check_witness:
  "processNewImage (sample_env (Decoded (sample_image 199 500))) 7 0 [] (sample_world 100)
      = (False, (sample_world 100)\<lparr>replies := [IMAGE_SIZE_TOO_SMALL]\<rparr>)
   \<and> processNewImage (sample_env (Decoded (sample_image 500 1001))) 7 0 [] (sample_world 100)
      = (False, (sample_world 100)\<lparr>replies := [IMAGE_SIZE_TOO_BIG]\<rparr>)
   \<and> detected (snd (processNewImage (sample_env (Decoded (sample_image 200 1000))) 7 0 [] (sample_world 100)))
      = [sample_image 200 1000]"
  using processNewImage_size_check [of "sample_env (Decoded (sample_image 199 500))" 0 "[]" "sample_image 199 500" 7 "sample_world 100"]
    processNewImage_size_check [of "sample_env (Decoded (sample_image 500 1001))" 0 "[]" "sample_image 500 1001" 7 "sample_world 100"]
    processNewImage_size_check [of "sample_env (Decoded (sample_image 200 1000))" 0 "[]" "sample_image 200 1000" 7 "sample_world 100"]
  by (simp add: sample_defs)

section \<open>Write failures\<close>

text \<open>
  Claim C3 at a failing input. One keypoint and four neighbours make four hits of 14
  bytes; the disk accepts 50 bytes. Every call of \<open>writeHit\<close> finds the stream good and
  returns \<open>true\<close>, the 56 bytes do not all reach the disk, and nothing tests the stream
  after the last hit or at \<open>close()\<close>: the request returns \<open>true\<close> and replies
  \<open>OK\<close>, and the file holds 50 bytes, not 56. (Without a buffer it is the write of the
  angle of the fourth hit that fails; with the buffer of a \<open>std::ofstream\<close> it is the
  flush at \<open>close()\<close>. Neither is tested.)
\<close>

theorem processNewImage_unchecked_last_write:
  "fst (processNewImage (sample_env (Decoded (sample_image 200 200))) 7 0 [] (sample_world 50)) \<and>
   replies (snd (processNewImage (sample_env (Decoded (sample_image 200 200))) 7 0 [] (sample_world 50))) = [OK] \<and>
   length (hits (snd (processNewImage (sample_env (Decoded (sample_image 200 200))) 7 0 [] (sample_world 50)))) = 4 \<and>
   map_option length (files (snd (processNewImage (sample_env (Decoded (sample_image 200 200))) 7 0 [] (sample_world 50)))
      ''imageHits/7.dat'') = Some 50"
  by (simp add: sample_defs run_defs hitFileName_7)

section \<open>The hit file\<close>

lemma openHitFile_ok:
  "fst (openHitFile (ofs, w) imageId) \<Longrightarrow> ofs_good ofs \<Longrightarrow>
     \<exists>w1. openHitFile (ofs, w) imageId = (True, ofs\<lparr>ofs_path := Some (hitFileName imageId)\<rparr>, w1)
       \<and> files w1 (hitFileName imageId) = Some [] \<and> room w1 = room w"
  by (auto simp: openHitFile_def ofs_open_def Let_def split: if_splits)

lemma length_concat_hit_records:
  "length (concat (map (hit_record bo) hs)) = 14 * length hs"
  by (induction hs) (simp_all add: length_hit_record)

text \<open>
  Claim C6. Through a good stream, on a disk with room for it, \<open>writeHit\<close> appends
  exactly 14 bytes to the file: the word id (4 bytes), the image id (4 bytes), the angle
  (2 bytes), x (2 bytes) and y (2 bytes), in this order and in the byte order of the host.
  When the disk has room for every hit of a request that completes, the file of the request
  is these records one after the other and nothing else, 14 bytes per hit.
\<close>

theorem hit_file_layout:
  "(ofs_good ofs \<and> ofs_path ofs = Some name \<and> files w name = Some old \<and> 14 \<le> room w \<longrightarrow>
      writeHit bo (ofs, w) hit =
        (True, ofs, w\<lparr>files := (files w)(name \<mapsto> old @
            object_bytes bo 4 (i_wordId hit) @ object_bytes bo 4 (i_imageId hit) @
            object_bytes bo 2 (i_angle hit) @ object_bytes bo 2 (hit_x hit) @ object_bytes bo 2 (hit_y hit)),
          room := room w - 14\<rparr>)
      \<and> length (object_bytes bo 4 (i_wordId hit) @ object_bytes bo 4 (i_imageId hit) @
            object_bytes bo 2 (i_angle hit) @ object_bytes bo 2 (hit_x hit) @ object_bytes bo 2 (hit_y hit)) = 14)
   \<and> (fst (processNewImage e imageId n buf w0) \<and> imdecode e (take n buf) = Decoded img
        \<and> 14 * length (concat (map (keypoint_hits e imageId (cols img) (rows img)) (sift e img))) \<le> room w0 \<longrightarrow>
      files (snd (processNewImage e imageId n buf w0)) (hitFileName imageId)
        = Some (concat (map (hit_record (host_order e))
             (concat (map (keypoint_hits e imageId (cols img) (rows img)) (sift e img)))))
      \<and> length (concat (map (hit_record (host_order e))
             (concat (map (keypoint_hits e imageId (cols img) (rows img)) (sift e img)))))
         = 14 * length (concat (map (keypoint_hits e imageId (cols img) (rows img)) (sift e img))))"
proof (intro conjI impI)
  assume a: "ofs_good ofs \<and> ofs_path ofs = Some name \<and> files w name = Some old \<and> 14 \<le> room w"
  then show "writeHit bo (ofs, w) hit =
        (True, ofs, w\<lparr>files := (files w)(name \<mapsto> old @
            object_bytes bo 4 (i_wordId hit) @ object_bytes bo 4 (i_imageId hit) @
            object_bytes bo 2 (i_angle hit) @ object_bytes bo 2 (hit_x hit) @ object_bytes bo 2 (hit_y hit)),
          room := room w - 14\<rparr>)"
    using writeHit_fits [of ofs name w old bo hit] by (simp add: hit_record_def)
  show "length (object_bytes bo 4 (i_wordId hit) @ object_bytes bo 4 (i_imageId hit) @
            object_bytes bo 2 (i_angle hit) @ object_bytes bo 2 (hit_x hit) @ object_bytes bo 2 (hit_y hit)) = 14"
    by (simp add: length_object_bytes)
next
  let ?hs = "concat (map (keypoint_hits e imageId (cols img) (rows img)) (sift e img))"
  show "length (concat (map (hit_record (host_order e)) ?hs)) = 14 * length ?hs"
    by (rule length_concat_hit_records)
  assume a: "fst (processNewImage e imageId n buf w0) \<and> imdecode e (take n buf) = Decoded img
        \<and> 14 * length ?hs \<le> room w0"
  let ?o = "openHitFile (\<lparr>ofs_path = None, ofs_good = True\<rparr>, w0\<lparr>detected := detected w0 @ [img]\<rparr>) imageId"
  let ?k = "keypoint_loop e imageId (cols img) (rows img) (sift e img) (snd ?o)"
  obtain w' where r: "processNewImage e imageId n buf w0 = (True, w')"
    using a by (cases "processNewImage e imageId n buf w0") simp
  from r a have o: "fst ?o" and w': "w' = sendReply OK (snd (ofs_close (snd ?k)))"
    by (auto elim!: processNewImage_True)
  obtain w1 where o1: "?o = (True, \<lparr>ofs_path = Some (hitFileName imageId), ofs_good = True\<rparr>, w1)"
    and f1: "files w1 (hitFileName imageId) = Some []" and r1: "room w1 = room w0"
    using openHitFile_ok [OF o] by auto
  have "14 * length ?hs \<le> room w1"
    using a r1 by simp
  from keypoint_loop_fits [OF _ _ f1 this, of "\<lparr>ofs_path = Some (hitFileName imageId), ofs_good = True\<rparr>"]
  obtain w2 where "?k = (True, \<lparr>ofs_path = Some (hitFileName imageId), ofs_good = True\<rparr>, w2)"
    and "files w2 (hitFileName imageId) = Some (concat (map (hit_record (host_order e)) ?hs))"
    using o1 by auto
  then show "files (snd (processNewImage e imageId n buf w0)) (hitFileName imageId)
        = Some (concat (map (hit_record (host_order e)) ?hs))"
    using r w' by (simp add: sendReply_def ofs_close_def)
qed

theorem hit_file_layout_witness:
  "files (snd (snd (writeHit LittleEndian
       (\<lparr>ofs_path = Some ''f'', ofs_good = True\<rparr>, (sample_world 20)\<lparr>files := [''f'' \<mapsto> [9]]\<rparr>)
       \<lparr>i_wordId = 0x01020304, i_imageId = 7, i_angle = 0x4000, hit_x = 0x8000, hit_y = 0x0102\<rparr>))) ''f''
     = Some [9, 4, 3, 2, 1, 7, 0, 0, 0, 0, 0x40, 0, 0x80, 2, 1]
   \<and> map_option length (files (snd (processNewImage (sample_env (Decoded (sample_image 200 200))) 7 0 [] (sample_world 56)))
        (hitFileName 7)) = Some 56"
proof -
  let ?E = "sample_env (Decoded (sample_image 200 200))"
  let ?I = "sample_image 200 200"
  note layout = hit_file_layout [where ofs = "\<lparr>ofs_path = Some ''f'', ofs_good = True\<rparr>" and name = "''f''"
      and w = "(sample_world 20)\<lparr>files := [''f'' \<mapsto> [9]]\<rparr>" and old = "[9]" and bo = LittleEndian
      and hit = "\<lparr>i_wordId = 0x01020304, i_imageId = 7, i_angle = 0x4000, hit_x = 0x8000, hit_y = 0x0102\<rparr>"
      and e = ?E and imageId = 7 and n = 0 and buf = "[]" and ?w0.0 = "sample_world 56" and img = ?I]
  have run: "fst (processNewImage ?E 7 0 [] (sample_world 56))"
    by (simp add: sample_defs run_defs)
  have dec: "imdecode ?E (take 0 []) = Decoded ?I"
    by (simp add: sample_env_def)
  have four: "length (concat (map (keypoint_hits ?E 7 (cols ?I) (rows ?I)) (sift ?E ?I))) = 4"
    by (simp add: sample_env_def keypoint_hits_def)
  have "map_option length (files (snd (processNewImage ?E 7 0 [] (sample_world 56))) (hitFileName 7)) = Some 56"
    using layout [THEN conjunct2] run dec four by (auto simp: sample_world_def)
  moreover have "files (snd (snd (writeHit LittleEndian
       (\<lparr>ofs_path = Some ''f'', ofs_good = True\<rparr>, (sample_world 20)\<lparr>files := [''f'' \<mapsto> [9]]\<rparr>)
       \<lparr>i_wordId = 0x01020304, i_imageId = 7, i_angle = 0x4000, hit_x = 0x8000, hit_y = 0x0102\<rparr>))) ''f''
     = Some [9, 4, 3, 2, 1, 7, 0, 0, 0, 0, 0x40, 0, 0x80, 2, 1]"
    using layout [THEN conjunct1]
    by (simp add: sample_world_def object_bytes_def le_bytes_def upt_rec)
  ultimately show ?thesis by simp
qed

section \<open>The fixed-point encodings of a keypoint\<close>

text \<open>
  Claim C2, as stated, fails: the conversion to \<open>u_int16_t\<close> discards the fraction, it
  does not round. For an angle of 45.25 degrees, \<open>45.25 / 360 * 65536\<close> is about
  8237.51; the single-precision quotient times 65536 is 8435211 / 1024, about 8237.5107:
  the code stores 8237, the claim says 8238.
\<close>

theorem fixed_point_truncates_counterexample:
  "is_float32 (181 / 4) \<and> (0::real) \<le> 181 / 4 \<and> (181 / 4 :: real) < 360 \<and>
   uint (angle_fixed \<lparr>angle = 181 / 4, pt_x = 0, pt_y = 0\<rparr>) = 8237 \<and>
   round ((181 / 4 :: real) / 360 * 65536) mod 65536 = 8238"
proof -
  have "uint (angle_fixed \<lparr>angle = 181 / 4, pt_x = 0, pt_y = 0\<rparr>) = 8237"
    using scaled_fixed [of "181 / 1440"]
    by (simp add: angle_fixed_def fdiv_def fl32_45)
  then show ?thesis
    using is_float32_45 by (simp add: round_def)
qed

text \<open>
  Claim C2, amended. For an angle in [0, 360) and a position inside the image
  (\<open>0 \<le> x < width\<close>, \<open>0 \<le> y < height\<close>; width and height at most \<open>2 ^ 24\<close>, as those
  of every image that passed the size test are), each stored encoding is the
  single-precision quotient (\<open>angle / 360\<close>, \<open>x / width\<close>, \<open>y / height\<close>, rounded to
  binary32) times 65536 with the fraction discarded, modulo 65536. With \<open>v\<close> the exact
  value of \<open>angle / 360 * 65536\<close> (of \<open>x / width * 65536\<close>, of \<open>y / height * 65536\<close>),
  this is \<open>floor v\<close> or, where the rounding of the quotient reaches the next multiple of
  \<open>1 / 65536\<close>, \<open>floor v + 1\<close>, modulo 65536; it is not \<open>v\<close> rounded to the nearest
  integer.
\<close>

theorem fixed_point_encodings:
  assumes "0 \<le> angle kp" "angle kp < 360"
    and "0 \<le> pt_x kp" "pt_x kp < real i_imgWidth" "i_imgWidth \<le> 2 ^ 24"
    and "0 \<le> pt_y kp" "pt_y kp < real i_imgHeight" "i_imgHeight \<le> 2 ^ 24"
  shows "uint (angle_fixed kp) = \<lfloor>fdiv (angle kp) 360 * 65536\<rfloor> mod 65536
     \<and> (uint (angle_fixed kp) = \<lfloor>angle kp / 360 * 65536\<rfloor> mod 65536
        \<or> uint (angle_fixed kp) = (\<lfloor>angle kp / 360 * 65536\<rfloor> + 1) mod 65536)
     \<and> uint (x_fixed i_imgWidth kp) = \<lfloor>fdiv (pt_x kp) (real i_imgWidth) * 65536\<rfloor> mod 65536
     \<and> (uint (x_fixed i_imgWidth kp) = \<lfloor>pt_x kp / real i_imgWidth * 65536\<rfloor> mod 65536
        \<or> uint (x_fixed i_imgWidth kp) = (\<lfloor>pt_x kp / real i_imgWidth * 65536\<rfloor> + 1) mod 65536)
     \<and> uint (y_fixed i_imgHeight kp) = \<lfloor>fdiv (pt_y kp) (real i_imgHeight) * 65536\<rfloor> mod 65536
     \<and> (uint (y_fixed i_imgHeight kp) = \<lfloor>pt_y kp / real i_imgHeight * 65536\<rfloor> mod 65536
        \<or> uint (y_fixed i_imgHeight kp) = (\<lfloor>pt_y kp / real i_imgHeight * 65536\<rfloor> + 1) mod 65536)"
proof -
  have a: "angle kp < real (360 :: nat)" using assms(2) by simp
  note e1 = encoding_component [OF assms(1) a, unfolded of_nat_numeral]
  note e2 = encoding_component [OF assms(3,4)]
  note e3 = encoding_component [OF assms(6,7)]
  show ?thesis
    unfolding angle_fixed_def x_fixed_def y_fixed_def
      float_of_unsigned_exact [OF assms(5)] float_of_unsigned_exact [OF assms(8)]
    using e1 e2 e3 by blast
qed

theorem fixed_point_encodings_witness:
  "uint (angle_fixed \<lparr>angle = 181 / 4, pt_x = 164101 / 512, pt_y = 199\<rparr>) = 8237
   \<and> \<lfloor>(181 / 4 :: real) / 360 * 65536\<rfloor> = 8237
   \<and> uint (x_fixed 641 \<lparr>angle = 181 / 4, pt_x = 164101 / 512, pt_y = 199\<rparr>) = 32769
   \<and> \<lfloor>(164101 / 512 :: real) / 641 * 65536\<rfloor> = 32768
   \<and> uint (y_fixed 200 \<lparr>angle = 181 / 4, pt_x = 164101 / 512, pt_y = 199\<rparr>) = 65208
   \<and> \<lfloor>(199 :: real) / 200 * 65536\<rfloor> = 65208"
  using fixed_point_encodings [of "\<lparr>angle = 181 / 4, pt_x = 164101 / 512, pt_y = 199\<rparr>" 641 200]
  by (simp add: fdiv_def fl32_45 fl32_x fl32_y)

text \<open>
  Claim C8. For a keypoint whose angle is a float in [0, 360) and whose position is a
  pair of floats inside the image (width and height at most \<open>2 ^ 24\<close>), the stored angle
  decoded as \<open>angle_fixed / 65536 * 360\<close> is less than one step of \<open>360 / 65536\<close>
  degrees away from the angle, and the stored x and y decoded against the width and the
  height are less than one step of \<open>width / 65536\<close> and \<open>height / 65536\<close> away from x
  and y. The stored values are those of the single-precision computation.
\<close>

theorem fixed_point_round_trip:
  assumes "is_float32 (angle kp)" "0 \<le> angle kp" "angle kp < 360"
    and "is_float32 (pt_x kp)" "0 \<le> pt_x kp" "pt_x kp < real i_imgWidth" "i_imgWidth \<le> 2 ^ 24"
    and "is_float32 (pt_y kp)" "0 \<le> pt_y kp" "pt_y kp < real i_imgHeight" "i_imgHeight \<le> 2 ^ 24"
  shows "\<bar>real_of_int (uint (angle_fixed kp)) / 65536 * 360 - angle kp\<bar> < 360 / 65536
     \<and> \<bar>real_of_int (uint (x_fixed i_imgWidth kp)) / 65536 * real i_imgWidth - pt_x kp\<bar> < real i_imgWidth / 65536
     \<and> \<bar>real_of_int (uint (y_fixed i_imgHeight kp)) / 65536 * real i_imgHeight - pt_y kp\<bar> < real i_imgHeight / 65536"
proof -
  have a: "angle kp < real (360 :: nat)" "(360 :: nat) \<le> 2 ^ 24" using assms(3) by simp_all
  have f: "fl32 (angle kp) = angle kp" "fl32 (pt_x kp) = pt_x kp" "fl32 (pt_y kp) = pt_y kp"
    using assms(1,4,8) by (simp_all add: is_float32_def)
  show ?thesis
    using round_trip_component [OF f(1) assms(2) a] round_trip_component [OF f(2) assms(5,6,7)]
      round_trip_component [OF f(3) assms(9,10,11)] assms(7,11)
    by (simp add: angle_fixed_def x_fixed_def y_fixed_def float_of_unsigned_exact)
qed

theorem fixed_point_round_trip_witness:
  "\<bar>real_of_int (uint (angle_fixed \<lparr>angle = 181 / 4, pt_x = 164101 / 512, pt_y = 199\<rparr>)) / 65536 * 360 - 181 / 4\<bar> < 360 / 65536
   \<and> \<bar>real_of_int (uint (x_fixed 641 \<lparr>angle = 181 / 4, pt_x = 164101 / 512, pt_y = 199\<rparr>)) / 65536 * 641 - 164101 / 512\<bar> < 641 / 65536
   \<and> \<bar>real_of_int (uint (y_fixed 200 \<lparr>angle = 181 / 4, pt_x = 164101 / 512, pt_y = 199\<rparr>)) / 65536 * 200 - 199\<bar> < 200 / 65536"
  using fixed_point_round_trip [of "\<lparr>angle = 181 / 4, pt_x = 164101 / 512, pt_y = 199\<rparr>" 641 200]
  by (simp add: is_float32_45 is_float32_samples)

section \<open>Loading the vocabulary\<close>

lemma floats_of_replicate:
  "floats_of k (replicate (4 * k) b @ bs) = replicate k (replicate 4 b)"
proof (induction k)
  case 0
  then show ?case by simp
next
  case (Suc k)
  have "replicate (4 * Suc k) b = replicate 4 b @ replicate (4 * k) b"
    by (simp add: replicate_add [symmetric])
  then show ?case
    using Suc.IH by simp
qed

lemma parse_records_sample:
  "parse_records (sample_record @ bs) = sample_row # parse_records bs"
proof -
  have f: "floats_of 128 (sample_record @ bs) = sample_row"
    using floats_of_replicate [of 128 1 "[13, 10] @ bs"]
    by (simp add: sample_record_def sample_row_def)
  have s: "skip_line (drop 512 (sample_record @ bs)) = bs"
    by (simp add: sample_record_def skip_line_def)
  have "parse_records (sample_record @ bs)
      = floats_of 128 (sample_record @ bs) # parse_records (skip_line (drop 512 (sample_record @ bs)))"
    by (subst parse_records.simps) (simp add: sample_record_def)
  then show ?thesis
    unfolding f s .
qed

lemma parse_records_vocabulary:
  "parse_records (vocabulary_file n @ bs) = replicate n sample_row @ parse_records bs"
  by (induction n) (simp_all add: vocabulary_file_def parse_records_sample)

lemma parse_records_short: "length bs < 512 \<Longrightarrow> parse_records bs = []"
  by (simp add: parse_records.simps [of bs])

lemma readVisualWords_parse:
  assumes "length c0 = 4"
  shows "readVisualWords disk fileName c0 ws =
           (case disk fileName of
              None \<Rightarrow> (False, ws)
            | Some content \<Rightarrow> (True, ws @ parse_records content))"
proof -
  have "snd (snd (read_loop c0 \<lparr>ifs_rest = content, ifs_eof = False, ifs_fail = False\<rparr> ws))
      = ws @ parse_records content" for content
    using read_loop_parse [of "\<lparr>ifs_rest = content, ifs_eof = False, ifs_fail = False\<rparr>" c0 ws] assms
    by (simp add: ifs_good_def)
  then show ?thesis
    by (simp add: readVisualWords_def split: option.splits)
qed

text \<open>
  Claim C7. \<open>readVisualWords\<close> fails only when the file cannot be opened, and then it
  leaves the matrix as it was. Otherwise it returns \<open>true\<close> and appends the rows of
  \<open>parse_records\<close>: one row per record of 128 floats, each record followed by
  the bytes up to and including the next newline, until fewer than 512 bytes are left;
  a short final record gives no row and no error. Every appended row has 128 components of
  4 bytes, taken from the file (the rows do not depend on the initial value of \<open>c\<close>).
\<close>

theorem readVisualWords_records:
  assumes "length c0 = 4"
  shows "readVisualWords disk fileName c0 ws =
           (case disk fileName of
              None \<Rightarrow> (False, ws)
            | Some content \<Rightarrow> (True, ws @ parse_records content))
     \<and> (\<not> fst (readVisualWords disk fileName c0 ws)) = (disk fileName = None)
     \<and> (\<forall>content r. disk fileName = Some content \<and> r \<in> set (parse_records content) \<longrightarrow>
           length r = 128 \<and> (\<forall>f\<in>set r. length f = 4))"
  using readVisualWords_parse [OF assms, of disk fileName ws] parse_records_shape
  by (auto split: option.splits)

theorem readVisualWords_records_witness:
  "readVisualWords [''visualWords.dat'' \<mapsto> vocabulary_file 2 @ replicate 100 1] ''visualWords.dat'' [0, 0, 0, 0] []
      = (True, [sample_row, sample_row])
   \<and> readVisualWords [''visualWords.dat'' \<mapsto> vocabulary_file 2 @ replicate 100 1] ''other.dat'' [0, 0, 0, 0] []
      = (False, [])"
proof -
  have "parse_records (vocabulary_file 2 @ replicate 100 1) = replicate 2 sample_row @ []"
    unfolding parse_records_vocabulary by (simp add: parse_records_short)
  then have p: "parse_records (vocabulary_file 2 @ replicate 100 1) = [sample_row, sample_row]"
    by (simp add: numeral_2_eq_2)
  show ?thesis
    using readVisualWords_records [of "[0, 0, 0, 0]" "[''visualWords.dat'' \<mapsto> vocabulary_file 2 @ replicate 100 1]" "''visualWords.dat''" "[]"]
      readVisualWords_records [of "[0, 0, 0, 0]" "[''visualWords.dat'' \<mapsto> vocabulary_file 2 @ replicate 100 1]" "''other.dat''" "[]"]
    by (simp add: p)
qed

text \<open>
  Claim C4. \<open>init\<close> reaches the loading of the index only when \<open>readVisualWords\<close>
  succeeded and the matrix has exactly 1000000 rows, and the index is then loaded over
  these rows. With any other number of rows \<open>init\<close> ends in \<open>exit(1)\<close> or in the
  failed assertion, and loads no index.
\<close>

theorem init_requires_million_rows:
  "(\<forall>ws ix. init disk load_index visualWordsPath indexPath c0 = Initialized ws ix \<longrightarrow>
        readVisualWords disk visualWordsPath c0 [] = (True, ws) \<and> length ws = 1000000
        \<and> ix = load_index ws indexPath)
   \<and> (length (snd (readVisualWords disk visualWordsPath c0 [])) \<noteq> 1000000 \<longrightarrow>
        init disk load_index visualWordsPath indexPath c0 = Exit 1
        \<or> init disk load_index visualWordsPath indexPath c0 = Assertion_Failed)
   \<and> (fst (readVisualWords disk visualWordsPath c0 []) \<and> length (snd (readVisualWords disk visualWordsPath c0 [])) = 1000000 \<longrightarrow>
        init disk load_index visualWordsPath indexPath c0
          = Initialized (snd (readVisualWords disk visualWordsPath c0 []))
              (load_index (snd (readVisualWords disk visualWordsPath c0 [])) indexPath))"
  by (cases "readVisualWords disk visualWordsPath c0 []") (auto simp: init_def Let_def)

theorem init_requires_million_rows_witness:
  "init [''visualWords.dat'' \<mapsto> vocabulary_file 1000000] (\<lambda>ws path. path) ''visualWords.dat'' ''index.dat'' [0, 0, 0, 0]
      = Initialized (replicate 1000000 sample_row) ''index.dat''
   \<and> init [''visualWords.dat'' \<mapsto> vocabulary_file 999999 @ replicate 100 1] (\<lambda>ws path. path) ''visualWords.dat'' ''index.dat'' [0, 0, 0, 0]
      = Assertion_Failed
   \<and> init Map.empty (\<lambda>ws path. path) ''visualWords.dat'' ''index.dat'' [0, 0, 0, 0] = Exit 1"
proof -
  let ?li = "\<lambda>(ws :: row list) (path :: string). path"
  let ?c = "[0, 0, 0, 0] :: byte list"
  let ?whole = "[''visualWords.dat'' \<mapsto> vocabulary_file 1000000]"
  let ?cut = "[''visualWords.dat'' \<mapsto> vocabulary_file 999999 @ replicate 100 1]"
  have c: "length ?c = 4" by simp
  have "parse_records (vocabulary_file 1000000 @ []) = replicate 1000000 sample_row @ parse_records []"
    by (rule parse_records_vocabulary)
  then have whole: "readVisualWords ?whole ''visualWords.dat'' ?c [] = (True, replicate 1000000 sample_row)"
    using readVisualWords_parse [OF c, of ?whole "''visualWords.dat''" "[]"]
    by (simp add: parse_records_short)
  have "parse_records (vocabulary_file 999999 @ replicate 100 1)
      = replicate 999999 sample_row @ parse_records (replicate 100 1)"
    by (rule parse_records_vocabulary)
  then have cut: "readVisualWords ?cut ''visualWords.dat'' ?c [] = (True, replicate 999999 sample_row)"
    using readVisualWords_parse [OF c, of ?cut "''visualWords.dat''" "[]"]
    by (simp add: parse_records_short)
  have none: "readVisualWords Map.empty ''visualWords.dat'' ?c [] = (False, [])"
    by (simp add: readVisualWords_def)
  note th = init_requires_million_rows [where load_index = ?li and visualWordsPath = "''visualWords.dat''"
      and indexPath = "''index.dat''" and ?c0.0 = ?c]
  have "init ?whole ?li ''visualWords.dat'' ''index.dat'' ?c = Initialized (replicate 1000000 sample_row) ''index.dat''"
    using th [where disk = ?whole, THEN conjunct2, THEN conjunct2]
    unfolding whole by simp
  moreover have "init ?cut ?li ''visualWords.dat'' ''index.dat'' ?c = Assertion_Failed"
    using th [where disk = ?cut, THEN conjunct2, THEN conjunct1]
    unfolding cut by (simp add: init_def cut)
  moreover have "init Map.empty ?li ''visualWords.dat'' ''index.dat'' ?c = Exit 1"
    using th [where disk = Map.empty, THEN conjunct2, THEN conjunct1]
    unfolding none by (simp add: init_def none)
  ultimately show ?thesis by simp
qed

end
